theory Spec2Isabelle
  imports Complex_Main
begin

section \<open>Python strings\<close>

text \<open>
  A Python \<^verbatim>\<open>str\<close> is a sequence of Unicode code points, and \<^verbatim>\<open>len\<close> counts code
  points. A string is therefore a list of code points, each an integer (\<^verbatim>\<open>ord(c)\<close>);
  \<open>u\<close> turns an ASCII literal into such a list.
\<close>

type_synonym ustr = "int list"

definition u :: "string \<Rightarrow> ustr" where
  "u s = map of_char s"

text \<open>
  \<^verbatim>\<open>str.isspace\<close> for one character. The table is the one of the interpreter
  (U+0009..U+000D, U+001C..U+0020, U+0085, U+00A0, U+1680, U+2000..U+200A, U+2028,
  U+2029, U+202F, U+205F, U+3000); \<^verbatim>\<open>str.strip()\<close>, \<^verbatim>\<open>str.split()\<close> and the
  regular expression class \<^verbatim>\<open>\s\<close> all use it.
\<close>

definition isspace :: "int \<Rightarrow> bool" where
  "isspace c \<longleftrightarrow>
     (9 \<le> c \<and> c \<le> 13) \<or> (28 \<le> c \<and> c \<le> 32) \<or> c = 133 \<or> c = 160 \<or> c = 5760 \<or>
     (8192 \<le> c \<and> c \<le> 8202) \<or> c = 8232 \<or> c = 8233 \<or> c = 8239 \<or> c = 8287 \<or> c = 12288"

text \<open>\<^verbatim>\<open>s.strip()\<close>: leading and trailing whitespace removed.\<close>

definition str_strip :: "ustr \<Rightarrow> ustr" where
  "str_strip s = rev (dropWhile isspace (rev (dropWhile isspace s)))"

text \<open>
  \<^verbatim>\<open>s.split()\<close>: the maximal runs of non-whitespace characters, in order. The first
  argument is the word being read.
\<close>

fun split_da :: "ustr \<Rightarrow> ustr \<Rightarrow> ustr list" where
  "split_da parola [] = (if parola = [] then [] else [parola])"
| "split_da parola (c # cs) =
     (if isspace c
      then (if parola = [] then split_da [] cs else parola # split_da [] cs)
      else split_da (parola @ [c]) cs)"

definition str_split :: "ustr \<Rightarrow> ustr list" where
  "str_split s = split_da [] s"

text \<open>\<^verbatim>\<open>sep.join(xs)\<close>.\<close>

fun str_join :: "ustr \<Rightarrow> ustr list \<Rightarrow> ustr" where
  "str_join sep [] = []"
| "str_join sep [x] = x"
| "str_join sep (x # y # ys) = x @ sep @ str_join sep (y # ys)"

section \<open>Splitting into sentences\<close>

text \<open>The character class \<^verbatim>\<open>[.!?]\<close>.\<close>

definition terminatore :: "int \<Rightarrow> bool" where
  "terminatore c \<longleftrightarrow> c = 46 \<or> c = 33 \<or> c = 63"

text \<open>
  \<^verbatim>\<open>re.split(r'([.!?]+)', testo)\<close>: the pieces between the maximal runs of
  terminators, with each run (the captured group) after the piece it ends. The result
  is piece, run, piece, run, ..., piece; the first argument is the piece being read.
\<close>

function re_split_cattura :: "ustr \<Rightarrow> ustr \<Rightarrow> ustr list" where
  "re_split_cattura pezzo [] = [pezzo]"
| "re_split_cattura pezzo (c # cs) =
     (if terminatore c
      then pezzo # (c # takeWhile terminatore cs) #
             re_split_cattura [] (dropWhile terminatore cs)
      else re_split_cattura (pezzo @ [c]) cs)"
  by pat_completeness auto
termination
  by (relation "measure (\<lambda>(pezzo, s). length s)")
     (auto simp: le_imp_less_Suc length_dropWhile_le)

section \<open>\<^verbatim>\<open>dividi_in_blocchi_con_frasi\<close>\<close>

text \<open>
  The first loop, \<^verbatim>\<open>for i in range(0, len(frasi) - 1, 2)\<close>, visits the even indices
  \<open>i\<close> with \<open>i + 1 < len(frasi)\<close> and appends
  \<^verbatim>\<open>(frasi[i] + frasi[i + 1]).strip()\<close>: it consumes the list two elements at a time.
\<close>

fun unisci_coppie :: "ustr list \<Rightarrow> ustr list" where
  "unisci_coppie (pezzo # term # resto) = str_strip (pezzo @ term) # unisci_coppie resto"
| "unisci_coppie _ = []"

text \<open>
  \<^verbatim>\<open>frasi_complete\<close> after line 268: the joined pairs, then the last piece when the list
  has odd length and the piece is not blank.
\<close>

definition frasi_complete :: "ustr \<Rightarrow> ustr list" where
  "frasi_complete testo =
     (let frasi = re_split_cattura [] testo in
      unisci_coppie frasi @
      (if length frasi mod 2 = 1 \<and> str_strip (last frasi) \<noteq> []
       then [str_strip (last frasi)] else []))"

text \<open>
  The packing loop (lines 270-284). The state is \<^verbatim>\<open>(blocchi, blocco_corrente,
  conteggio_parole)\<close>. The source appends \<^verbatim>\<open>' '.join(blocco_corrente)\<close> to
  \<^verbatim>\<open>blocchi\<close>; here a closed block stays a list of sentences and is joined when the
  result is written out, in \<open>dividi_in_blocchi_con_frasi\<close> below.
  \<^verbatim>\<open>parole_per_blocco\<close> is a Python \<^verbatim>\<open>int\<close>.
\<close>

type_synonym stato_blocchi = "ustr list list \<times> ustr list \<times> nat"

definition passo_blocco :: "int \<Rightarrow> stato_blocchi \<Rightarrow> ustr \<Rightarrow> stato_blocchi" where
  "passo_blocco parole_per_blocco st frase =
     (case st of (blocchi, blocco_corrente, conteggio_parole) \<Rightarrow>
       (let num_parole = length (str_split frase) in
        if int (conteggio_parole + num_parole) > parole_per_blocco \<and> blocco_corrente \<noteq> []
        then (blocchi @ [blocco_corrente], [frase], num_parole)
        else (blocchi, blocco_corrente @ [frase], conteggio_parole + num_parole)))"

fun ciclo_blocchi :: "int \<Rightarrow> ustr list \<Rightarrow> stato_blocchi \<Rightarrow> stato_blocchi" where
  "ciclo_blocchi n [] st = st"
| "ciclo_blocchi n (frase # frasi) st = ciclo_blocchi n frasi (passo_blocco n st frase)"

text \<open>The blocks when the loop has ended and the open block has been closed (line 286).\<close>

definition blocchi_di :: "ustr \<Rightarrow> int \<Rightarrow> ustr list list" where
  "blocchi_di testo parole_per_blocco =
     (case ciclo_blocchi parole_per_blocco (frasi_complete testo) ([], [], 0) of
        (blocchi, blocco_corrente, conteggio_parole) \<Rightarrow>
          if blocco_corrente \<noteq> [] then blocchi @ [blocco_corrente] else blocchi)"

definition dividi_in_blocchi_con_frasi :: "ustr \<Rightarrow> int \<Rightarrow> ustr" where
  "dividi_in_blocchi_con_frasi testo parole_per_blocco =
     str_join [10, 10] (map (str_join [32]) (blocchi_di testo parole_per_blocco))"

text \<open>The number of words of a block: the sum over its sentences.\<close>

definition parole_blocco :: "ustr list \<Rightarrow> nat" where
  "parole_blocco blocco = sum_list (map (\<lambda>frase. length (str_split frase)) blocco)"


text \<open>
  What is asked of a block: it is not empty, and it stays within the budget unless it is
  one sentence that alone exceeds it.
\<close>

definition blocco_ok :: "int \<Rightarrow> ustr list \<Rightarrow> bool" where
  "blocco_ok n b \<longleftrightarrow> b \<noteq> [] \<and> (int (parole_blocco b) \<le> n \<or> (\<exists>f. b = [f] \<and> n < int (length (str_split f))))"

text \<open>
  A text cut at its runs of terminators: pieces \<open>ps\<close> that hold no terminator, each
  followed by its run in \<open>ds\<close>, and the rest \<open>r\<close> after the last run. A run is
  maximal, so only the first piece can be empty.
\<close>

definition scomposta :: "ustr \<Rightarrow> ustr list \<Rightarrow> ustr list \<Rightarrow> ustr \<Rightarrow> bool" where
  "scomposta testo ps ds r \<longleftrightarrow>
     length ps = length ds \<and> testo = concat (map2 (@) ps ds) @ r \<and>
     (\<forall>p\<in>set ps. \<forall>x\<in>set p. \<not> terminatore x) \<and>
     (\<forall>d\<in>set ds. d \<noteq> [] \<and> (\<forall>x\<in>set d. terminatore x)) \<and>
     (\<forall>x\<in>set r. \<not> terminatore x) \<and>
     (\<forall>i. 0 < i \<and> i < length ps \<longrightarrow> ps ! i \<noteq> [])"

section \<open>The Unicode tables\<close>

text \<open>
  \<^verbatim>\<open>str.isalnum\<close>, \<^verbatim>\<open>str.lower\<close>, the classes \<^verbatim>\<open>\w\<close> and \<^verbatim>\<open>\d\<close> of \<^verbatim>\<open>re\<close> and
  matching under \<^verbatim>\<open>re.IGNORECASE\<close> read the Unicode character database of the
  interpreter, which is no part of the repository. It is a parameter \<open>U\<close> of every
  function that reads it:
  \<^item> \<open>isalnum U c\<close> is \<^verbatim>\<open>c.isalnum()\<close> for the character \<open>c\<close>; \<^verbatim>\<open>\w\<close> is
    \<open>isalnum U c \<or> c = 95\<close>;
  \<^item> \<open>isdecimal U c\<close> is \<^verbatim>\<open>c.isdecimal()\<close>, the class \<^verbatim>\<open>\d\<close>;
  \<^item> \<open>str_lower U s\<close> is \<^verbatim>\<open>s.lower()\<close>;
  \<^item> \<open>ignorecase U c p\<close> holds when the character \<open>c\<close> of a text matches the literal
    \<open>p\<close> of a pattern compiled with \<^verbatim>\<open>re.IGNORECASE\<close>.
  What is proved for every \<open>U\<close> holds for the tables of any interpreter.
\<close>

record unicode =
  isalnum :: "int \<Rightarrow> bool"
  isdecimal :: "int \<Rightarrow> bool"
  str_lower :: "ustr \<Rightarrow> ustr"
  ignorecase :: "int \<Rightarrow> int \<Rightarrow> bool"

text \<open>
  The rows of the tables for the ASCII characters and the Greek small letters
  U+03B1..U+03C9, which the concrete evaluations below use; they use no other
  character, and for other characters the definition is not the interpreter's table.
\<close>

definition minuscola_ascii :: "int \<Rightarrow> int" where
  "minuscola_ascii c = (if 65 \<le> c \<and> c \<le> 90 then c + 32 else c)"

definition tabelle_ascii :: unicode where
  "tabelle_ascii =
     \<lparr> isalnum = (\<lambda>c. (48 \<le> c \<and> c \<le> 57) \<or> (65 \<le> c \<and> c \<le> 90) \<or> (97 \<le> c \<and> c \<le> 122) \<or>
                       (945 \<le> c \<and> c \<le> 969)),
       isdecimal = (\<lambda>c. 48 \<le> c \<and> c \<le> 57),
       str_lower = map minuscola_ascii,
       ignorecase = (\<lambda>c p. minuscola_ascii c = minuscola_ascii p) \<rparr>"

section \<open>\<^verbatim>\<open>pulisci_testo_ocr\<close>\<close>

text \<open>The fourteen decorative characters of the class of line 23, by code point.\<close>

definition decorativo :: "int \<Rightarrow> bool" where
  "decorativo c \<longleftrightarrow>
     c \<in> set [8226, 9702, 9642, 9643, 9679, 9675, 9632, 9633, 9733, 9734, 9830, 9827, 9824, 9829]"

text \<open>\<^verbatim>\<open>testo.split('\n')\<close>; the first argument is the line being read.\<close>

fun split_linee :: "ustr \<Rightarrow> ustr \<Rightarrow> ustr list" where
  "split_linee linea [] = [linea]"
| "split_linee linea (c # cs) =
     (if c = 10 then linea # split_linee [] cs else split_linee (linea @ [c]) cs)"

text \<open>\<^verbatim>\<open>\w\<close>, and the class \<^verbatim>\<open>[^\w\s]\<close>.\<close>

definition parola_re :: "unicode \<Rightarrow> int \<Rightarrow> bool" where
  "parola_re U c \<longleftrightarrow> isalnum U c \<or> c = 95"

definition strano :: "unicode \<Rightarrow> int \<Rightarrow> bool" where
  "strano U c \<longleftrightarrow> \<not> parola_re U c \<and> \<not> isspace c"

text \<open>
  \<^verbatim>\<open>re.match(r'^[\d\s\-/]+$', linea)\<close>: the class holds \<^verbatim>\<open>\s\<close>, so a newline at the end
  is matched by the class as well and \<^verbatim>\<open>$\<close> adds nothing: the line is not empty and
  all its characters are in the class.
\<close>

definition solo_numeri :: "unicode \<Rightarrow> ustr \<Rightarrow> bool" where
  "solo_numeri U linea \<longleftrightarrow>
     linea \<noteq> [] \<and> list_all (\<lambda>c. isdecimal U c \<or> isspace c \<or> c = 45 \<or> c = 47) linea"

text \<open>
  \<^verbatim>\<open>re.search(r'(Andrea Asperti.*Universit\xe0.*Bologna.*DISI)', linea, re.IGNORECASE)\<close>.
  \<open>inizia_con\<close> matches a literal at the start of the text, \<open>dopo_punto_star\<close> matches
  \<^verbatim>\<open>.*\<close> followed by the literals left, each after a \<^verbatim>\<open>.*\<close> (\<^verbatim>\<open>.\<close> is any character
  but the newline), and \<open>intestazione\<close> tries every start.
\<close>

fun inizia_con :: "unicode \<Rightarrow> ustr \<Rightarrow> ustr \<Rightarrow> bool" where
  "inizia_con U [] s = True"
| "inizia_con U (p # ps) [] = False"
| "inizia_con U (p # ps) (c # cs) = (ignorecase U c p \<and> inizia_con U ps cs)"

fun dopo_punto_star :: "unicode \<Rightarrow> ustr list \<Rightarrow> ustr \<Rightarrow> bool" where
  "dopo_punto_star U [] s = True"
| "dopo_punto_star U (l # ls) [] = (inizia_con U l [] \<and> dopo_punto_star U ls [])"
| "dopo_punto_star U (l # ls) (c # cs) =
     ((inizia_con U l (c # cs) \<and> dopo_punto_star U ls (drop (length l) (c # cs))) \<or>
      (c \<noteq> 10 \<and> dopo_punto_star U (l # ls) cs))"

definition intestazione_qui :: "unicode \<Rightarrow> ustr \<Rightarrow> bool" where
  "intestazione_qui U s \<longleftrightarrow>
     inizia_con U [65, 110, 100, 114, 101, 97, 32, 65, 115, 112, 101, 114, 116, 105] s \<and>
     dopo_punto_star U
       [[85, 110, 105, 118, 101, 114, 115, 105, 116, 224],
        [66, 111, 108, 111, 103, 110, 97],
        [68, 73, 83, 73]]
       (drop 14 s)"

fun intestazione :: "unicode \<Rightarrow> ustr \<Rightarrow> bool" where
  "intestazione U [] = intestazione_qui U []"
| "intestazione U (c # cs) = (intestazione_qui U (c # cs) \<or> intestazione U cs)"

text \<open>
  \<^verbatim>\<open>re.search(r'[^\w\s]{5,}', linea)\<close>: at some position start \<open>n\<close> characters in a row
  that satisfy \<open>P\<close>.
\<close>

fun ha_corsa :: "(int \<Rightarrow> bool) \<Rightarrow> nat \<Rightarrow> ustr \<Rightarrow> bool" where
  "ha_corsa P n [] = (n = 0)"
| "ha_corsa P n (c # cs) = (n \<le> length (takeWhile P (c # cs)) \<or> ha_corsa P n cs)"

text \<open>\<^verbatim>\<open>re.match(r'^[\s\|\-_=~`]{3,}$', linea)\<close>; the class holds \<^verbatim>\<open>\s\<close> here too.\<close>

definition artefatto :: "ustr \<Rightarrow> bool" where
  "artefatto linea \<longleftrightarrow>
     length linea \<ge> 3 \<and>
     list_all (\<lambda>c. isspace c \<or> c = 124 \<or> c = 45 \<or> c = 95 \<or> c = 61 \<or> c = 126 \<or> c = 96) linea"

text \<open>
  The loop over the lines (lines 29-57), each \<^verbatim>\<open>continue\<close> a branch that leaves
  \<^verbatim>\<open>linee_pulite\<close> as it is. \<^verbatim>\<open>len(set(parole))\<close> is the number of distinct words.
\<close>

fun ciclo_linee :: "unicode \<Rightarrow> ustr list \<Rightarrow> ustr list \<Rightarrow> ustr list" where
  "ciclo_linee U [] linee_pulite = linee_pulite"
| "ciclo_linee U (riga # linee) linee_pulite =
     (let linea = str_strip riga in
      if length linea < 3 then ciclo_linee U linee linee_pulite
      else if solo_numeri U linea \<and> length linea < 15 then ciclo_linee U linee linee_pulite
      else if intestazione U linea then ciclo_linee U linee linee_pulite
      else if length (str_split linea) > 2 \<and> length (remdups (str_split linea)) = 1
        then ciclo_linee U linee linee_pulite
      else if ha_corsa (strano U) 5 linea then ciclo_linee U linee linee_pulite
      else if artefatto linea then ciclo_linee U linee linee_pulite
      else ciclo_linee U linee (linee_pulite @ [linea]))"

text \<open>\<^verbatim>\<open>re.sub(r'\s+', ' ', testo)\<close>.\<close>

function collassa_spazi :: "ustr \<Rightarrow> ustr" where
  "collassa_spazi [] = []"
| "collassa_spazi (c # cs) =
     (if isspace c then 32 # collassa_spazi (dropWhile isspace cs) else c # collassa_spazi cs)"
  by pat_completeness auto
termination
  by (relation "measure length") (auto simp: le_imp_less_Suc length_dropWhile_le)

text \<open>
  \<^verbatim>\<open>re.sub(r'\s+(X)', r'\1', testo)\<close> for a class \<^verbatim>\<open>X\<close> that holds no whitespace: a
  run of whitespace goes when a character of the class follows it, and stays otherwise.
  The class is \<^verbatim>\<open>[.,;:!?]\<close> on line 65 and the closing parenthesis on line 72.
\<close>

function togli_spazi_prima :: "(int \<Rightarrow> bool) \<Rightarrow> ustr \<Rightarrow> ustr" where
  "togli_spazi_prima X [] = []"
| "togli_spazi_prima X (c # cs) =
     (if isspace c
      then (case dropWhile isspace cs of
              [] \<Rightarrow> c # takeWhile isspace cs
            | d # ds \<Rightarrow>
                if X d then d # togli_spazi_prima X ds
                else c # takeWhile isspace cs @ togli_spazi_prima X (d # ds))
      else c # togli_spazi_prima X cs)"
  by pat_completeness auto
termination
proof (relation "measure (\<lambda>(X, s). length s)", goal_cases)
  case 1
  show ?case by simp
next
  case (2 X c cs d ds)
  have "length (dropWhile isspace cs) \<le> length cs" by (rule length_dropWhile_le)
  with 2 show ?case by simp
next
  case (3 X c cs d ds)
  have "length (dropWhile isspace cs) \<le> length cs" by (rule length_dropWhile_le)
  with 3 show ?case by simp
next
  case (4 X c cs)
  show ?case by simp
qed

definition punteggiatura :: "int \<Rightarrow> bool" where
  "punteggiatura c \<longleftrightarrow> c \<in> set [46, 44, 59, 58, 33, 63]"

text \<open>
  \<^verbatim>\<open>re.sub(r'([.,;:!?])([A-Za-z\xc0-\xff0-9])', r'\1 \2', testo)\<close>; the second class is
  A-Z, a-z, U+00C0..U+00FF and 0-9.
\<close>

definition lettera_o_cifra :: "int \<Rightarrow> bool" where
  "lettera_o_cifra c \<longleftrightarrow>
     (65 \<le> c \<and> c \<le> 90) \<or> (97 \<le> c \<and> c \<le> 122) \<or> (192 \<le> c \<and> c \<le> 255) \<or> (48 \<le> c \<and> c \<le> 57)"

fun spazio_dopo :: "ustr \<Rightarrow> ustr" where
  "spazio_dopo (p # c # cs) =
     (if punteggiatura p \<and> lettera_o_cifra c then p # 32 # c # spazio_dopo cs
      else p # spazio_dopo (c # cs))"
| "spazio_dopo cs = cs"

text \<open>\<^verbatim>\<open>re.sub(r'\(\s+', '(', testo)\<close>.\<close>

function parentesi_aperta :: "ustr \<Rightarrow> ustr" where
  "parentesi_aperta [] = []"
| "parentesi_aperta (c # cs) =
     (if c = 40 \<and> cs \<noteq> [] \<and> isspace (hd cs) then 40 # parentesi_aperta (dropWhile isspace cs)
      else c # parentesi_aperta cs)"
  by pat_completeness auto
termination
  by (relation "measure length") (auto simp: le_imp_less_Suc length_dropWhile_le)

text \<open>The class \<^verbatim>\<open>[\x00-\x08\x0b-\x0c\x0e-\x1f\x7f]\<close>.\<close>

definition controllo :: "int \<Rightarrow> bool" where
  "controllo c \<longleftrightarrow> (0 \<le> c \<and> c \<le> 8) \<or> (11 \<le> c \<and> c \<le> 12) \<or> (14 \<le> c \<and> c \<le> 31) \<or> c = 127"

definition pulisci_testo_ocr :: "unicode \<Rightarrow> ustr \<Rightarrow> ustr" where
  "pulisci_testo_ocr U testo =
     (if testo = [] then []
      else
        (let testo1 = filter (\<lambda>c. \<not> decorativo c) testo;
             linee = split_linee [] testo1;
             linee_pulite = ciclo_linee U linee [];
             testo2 = str_join [32] linee_pulite;
             testo3 = collassa_spazi testo2;
             testo4 = togli_spazi_prima punteggiatura testo3;
             testo5 = spazio_dopo testo4;
             testo6 = parentesi_aperta testo5;
             testo7 = togli_spazi_prima (\<lambda>c. c = 41) testo6;
             testo8 = filter (\<lambda>c. \<not> controllo c) testo7
         in str_strip testo8))"

section \<open>\<^verbatim>\<open>is_frase_valida\<close>\<close>

text \<open>The characters of the string literal of line 140, by code point.\<close>

definition simboli_validi :: "int list" where
  "simboli_validi =
     [46, 44, 59, 58, 33, 63, 40, 41, 43, 45, 42, 47, 61, 60, 62, 91, 93, 123, 125, 94, 95,
      945, 946, 947, 948, 949, 952, 955, 956, 960, 963, 964, 966, 969, 931, 916, 934, 937,
      177, 215, 247, 8776, 8800, 8804, 8805, 8734, 8706, 8711, 8747, 8730]"

definition carattere_valido :: "unicode \<Rightarrow> int \<Rightarrow> bool" where
  "carattere_valido U c \<longleftrightarrow> isalnum U c \<or> isspace c \<or> c \<in> set simboli_validi"

text \<open>
  \<^verbatim>\<open>re.search(r'([^\w\s])\1{4,}', frase)\<close>: a character of the class followed by four
  copies of itself, at some position.
\<close>

fun ripetuto :: "unicode \<Rightarrow> ustr \<Rightarrow> bool" where
  "ripetuto U [] = False"
| "ripetuto U (c # cs) =
     ((strano U c \<and> 4 \<le> length (takeWhile (\<lambda>x. x = c) cs)) \<or> ripetuto U cs)"

text \<open>
  The quotient \<^verbatim>\<open>caratteri_validi / len(frase)\<close> is the double nearest to the fraction;
  the model compares the fraction itself with \<open>6/10\<close>, which decides the same for
  every sentence shorter than \<open>2^50\<close> characters.
\<close>

definition is_frase_valida :: "unicode \<Rightarrow> ustr \<Rightarrow> bool" where
  "is_frase_valida U frase =
     (let parole = str_split frase in
      if length parole < 2 then False
      else
        (let caratteri_validi = length (filter (carattere_valido U) frase) in
         if length frase > 0 \<and>
            (of_nat caratteri_validi / of_nat (length frase) :: rat) < 6 / 10
         then False
         else if ripetuto U frase then False
         else True))"

section \<open>Substrings\<close>

text \<open>
  \<^verbatim>\<open>t in s\<close> for two strings: \<open>t\<close> is a prefix of \<open>s\<close> or of one of its suffixes.
\<close>

fun prefisso :: "ustr \<Rightarrow> ustr \<Rightarrow> bool" where
  "prefisso [] s = True"
| "prefisso (x # xs) [] = False"
| "prefisso (x # xs) (c # cs) = (x = c \<and> prefisso xs cs)"

fun contiene :: "ustr \<Rightarrow> ustr \<Rightarrow> bool" where
  "contiene [] t = prefisso t []"
| "contiene (c # cs) t = (prefisso t (c # cs) \<or> contiene cs t)"

section \<open>\<^verbatim>\<open>difflib.SequenceMatcher\<close>\<close>

text \<open>
  \<^verbatim>\<open>calcola_similarita\<close> calls \<^verbatim>\<open>SequenceMatcher(None, a, b).ratio()\<close> of the Python
  standard library. The definitions of this section follow \<^verbatim>\<open>difflib.py\<close> of
  CPython 3.11: \<^verbatim>\<open>__chain_b\<close>, \<^verbatim>\<open>find_longest_match\<close>, \<^verbatim>\<open>get_matching_blocks\<close>,
  \<^verbatim>\<open>ratio\<close> and \<^verbatim>\<open>_calculate_ratio\<close>, with \<^verbatim>\<open>isjunk = None\<close> and
  \<^verbatim>\<open>autojunk = True\<close>, the values the call leaves them at.

  Indices are natural numbers. Python computes \<^verbatim>\<open>j - 1\<close>, \<^verbatim>\<open>i - k + 1\<close> and
  \<^verbatim>\<open>j - k + 1\<close> on integers; the first is \<open>-1\<close> when \<open>j = 0\<close>, a key no dictionary
  of the algorithm holds, which \<open>j2len_prec\<close> writes out; the other two are never
  negative (\<open>ciclo_j_limiti\<close> below), so \<open>i + 1 - k\<close> on natural numbers is the same
  number.
\<close>

text \<open>
  \<^verbatim>\<open>__chain_b\<close>: \<^verbatim>\<open>b2j[elt]\<close> lists the indices of \<^verbatim>\<open>elt\<close> in \<^verbatim>\<open>b\<close> in increasing
  order. No element is junk (\<^verbatim>\<open>isjunk\<close> is \<^verbatim>\<open>None\<close>). When \<^verbatim>\<open>b\<close> has 200 elements or
  more, the elements that occur more than \<^verbatim>\<open>len(b) // 100 + 1\<close> times are popular and
  are deleted from \<^verbatim>\<open>b2j\<close>. \<open>b2j_get b elt\<close> is \<^verbatim>\<open>b2j.get(elt, [])\<close>.
\<close>

definition indici :: "'a list \<Rightarrow> 'a \<Rightarrow> nat list" where
  "indici b elt = filter (\<lambda>j. b ! j = elt) [0..<length b]"

definition popolare :: "'a list \<Rightarrow> 'a \<Rightarrow> bool" where
  "popolare b elt \<longleftrightarrow> length b \<ge> 200 \<and> length (indici b elt) > length b div 100 + 1"

definition b2j_get :: "'a list \<Rightarrow> 'a \<Rightarrow> nat list" where
  "b2j_get b elt = (if popolare b elt then [] else indici b elt)"

definition isbjunk :: "'a \<Rightarrow> bool" where
  "isbjunk x \<longleftrightarrow> False"

text \<open>\<^verbatim>\<open>j2len.get(j - 1, 0)\<close>.\<close>

definition j2len_prec :: "(nat \<rightharpoonup> nat) \<Rightarrow> nat \<Rightarrow> nat" where
  "j2len_prec j2len j =
     (if j = 0 then 0 else (case j2len (j - 1) of None \<Rightarrow> 0 | Some k \<Rightarrow> k))"

text \<open>
  The inner loop of \<^verbatim>\<open>find_longest_match\<close>,
  \<^verbatim>\<open>for j in b2j.get(a[i], nothing)\<close>, with its \<^verbatim>\<open>continue\<close> and its \<^verbatim>\<open>break\<close>. The
  state is \<^verbatim>\<open>(newj2len, besti, bestj, bestsize)\<close>.
\<close>

type_synonym stato_flm = "(nat \<rightharpoonup> nat) \<times> nat \<times> nat \<times> nat"

fun ciclo_j :: "(nat \<rightharpoonup> nat) \<Rightarrow> nat \<Rightarrow> nat \<Rightarrow> nat \<Rightarrow> nat list \<Rightarrow> stato_flm \<Rightarrow> stato_flm" where
  "ciclo_j j2len i blo bhi [] st = st"
| "ciclo_j j2len i blo bhi (j # js) (newj2len, besti, bestj, bestsize) =
     (if j < blo then ciclo_j j2len i blo bhi js (newj2len, besti, bestj, bestsize)
      else if j \<ge> bhi then (newj2len, besti, bestj, bestsize)
      else (let k = j2len_prec j2len j + 1 in
            if k > bestsize
            then ciclo_j j2len i blo bhi js (newj2len(j \<mapsto> k), i + 1 - k, j + 1 - k, k)
            else ciclo_j j2len i blo bhi js (newj2len(j \<mapsto> k), besti, bestj, bestsize)))"

text \<open>
  The outer loop, \<^verbatim>\<open>for i in range(alo, ahi)\<close>; the state is
  \<^verbatim>\<open>(j2len, besti, bestj, bestsize)\<close> and each round starts from an empty
  \<^verbatim>\<open>newj2len\<close>.
\<close>

fun ciclo_i :: "'a list \<Rightarrow> 'a list \<Rightarrow> nat \<Rightarrow> nat \<Rightarrow> nat list \<Rightarrow> stato_flm \<Rightarrow> stato_flm" where
  "ciclo_i a b blo bhi [] st = st"
| "ciclo_i a b blo bhi (i # is) (j2len, besti, bestj, bestsize) =
     ciclo_i a b blo bhi is
       (ciclo_j j2len i blo bhi (b2j_get b (a ! i)) (Map.empty, besti, bestj, bestsize))"

text \<open>
  The four \<^verbatim>\<open>while\<close> loops that extend the match. \<open>q\<close> is the test on the element of
  \<^verbatim>\<open>b\<close>: \<^verbatim>\<open>not isbjunk(...)\<close> in the first two loops, \<^verbatim>\<open>isbjunk(...)\<close> in the last two.
\<close>

function estendi_indietro ::
  "('a \<Rightarrow> bool) \<Rightarrow> 'a list \<Rightarrow> 'a list \<Rightarrow> nat \<Rightarrow> nat \<Rightarrow> nat \<times> nat \<times> nat \<Rightarrow> nat \<times> nat \<times> nat" where
  "estendi_indietro q a b alo blo (besti, bestj, bestsize) =
     (if besti > alo \<and> bestj > blo \<and> q (b ! (bestj - 1)) \<and> a ! (besti - 1) = b ! (bestj - 1)
      then estendi_indietro q a b alo blo (besti - 1, bestj - 1, bestsize + 1)
      else (besti, bestj, bestsize))"
  by pat_completeness auto
termination
  by (relation "measure (\<lambda>(q, a, b, alo, blo, besti, bestj, bestsize). besti)") auto

declare estendi_indietro.simps [simp del]

function estendi_avanti ::
  "('a \<Rightarrow> bool) \<Rightarrow> 'a list \<Rightarrow> 'a list \<Rightarrow> nat \<Rightarrow> nat \<Rightarrow> nat \<times> nat \<times> nat \<Rightarrow> nat \<times> nat \<times> nat" where
  "estendi_avanti q a b ahi bhi (besti, bestj, bestsize) =
     (if besti + bestsize < ahi \<and> bestj + bestsize < bhi \<and> q (b ! (bestj + bestsize)) \<and>
         a ! (besti + bestsize) = b ! (bestj + bestsize)
      then estendi_avanti q a b ahi bhi (besti, bestj, bestsize + 1)
      else (besti, bestj, bestsize))"
  by pat_completeness auto
termination
  by (relation "measure (\<lambda>(q, a, b, ahi, bhi, besti, bestj, bestsize). ahi - (besti + bestsize))")
     auto

declare estendi_avanti.simps [simp del]

definition find_longest_match ::
  "'a list \<Rightarrow> 'a list \<Rightarrow> nat \<Rightarrow> nat \<Rightarrow> nat \<Rightarrow> nat \<Rightarrow> nat \<times> nat \<times> nat" where
  "find_longest_match a b alo ahi blo bhi =
     (case ciclo_i a b blo bhi [alo..<ahi] (Map.empty, alo, blo, 0) of
        (j2len, besti, bestj, bestsize) \<Rightarrow>
          estendi_avanti isbjunk a b ahi bhi
            (estendi_indietro isbjunk a b alo blo
              (estendi_avanti (\<lambda>x. \<not> isbjunk x) a b ahi bhi
                (estendi_indietro (\<lambda>x. \<not> isbjunk x) a b alo blo (besti, bestj, bestsize)))))"

text \<open>
  The loop of \<^verbatim>\<open>get_matching_blocks\<close>, \<^verbatim>\<open>while queue\<close>. \<^verbatim>\<open>queue\<close> is used as a stack
  (\<^verbatim>\<open>append\<close> and \<^verbatim>\<open>pop\<close> work at its end): the head of the list here is the end of
  the Python list. Its termination rests on the bounds of \<open>find_longest_match\<close> and is
  proved after them.
\<close>

function (sequential) ciclo_coda ::
  "'a list \<Rightarrow> 'a list \<Rightarrow> (nat \<times> nat \<times> nat \<times> nat) list \<Rightarrow> (nat \<times> nat \<times> nat) list \<Rightarrow>
   (nat \<times> nat \<times> nat) list" where
  "ciclo_coda a b [] matching_blocks = matching_blocks"
| "ciclo_coda a b ((alo, ahi, blo, bhi) # queue) matching_blocks =
     (case find_longest_match a b alo ahi blo bhi of
        (i, j, k) \<Rightarrow>
          if k \<noteq> 0
          then ciclo_coda a b
                 ((if i + k < ahi \<and> j + k < bhi then [(i + k, ahi, j + k, bhi)] else []) @
                  (if alo < i \<and> blo < j then [(alo, i, blo, j)] else []) @ queue)
                 (matching_blocks @ [(i, j, k)])
          else ciclo_coda a b queue matching_blocks)"
  by pat_completeness auto

text \<open>\<^verbatim>\<open>matching_blocks.sort()\<close>: the triples in lexicographic order.\<close>

definition blocco_le :: "nat \<times> nat \<times> nat \<Rightarrow> nat \<times> nat \<times> nat \<Rightarrow> bool" where
  "blocco_le x y =
     (case x of (i1, j1, k1) \<Rightarrow> case y of (i2, j2, k2) \<Rightarrow>
        i1 < i2 \<or> (i1 = i2 \<and> (j1 < j2 \<or> (j1 = j2 \<and> k1 \<le> k2))))"

fun inserisci :: "nat \<times> nat \<times> nat \<Rightarrow> (nat \<times> nat \<times> nat) list \<Rightarrow> (nat \<times> nat \<times> nat) list" where
  "inserisci x [] = [x]"
| "inserisci x (y # ys) = (if blocco_le x y then x # y # ys else y # inserisci x ys)"

fun ordina :: "(nat \<times> nat \<times> nat) list \<Rightarrow> (nat \<times> nat \<times> nat) list" where
  "ordina [] = []"
| "ordina (x # xs) = inserisci x (ordina xs)"

text \<open>
  The loop that collapses adjacent blocks; the state is \<^verbatim>\<open>(i1, j1, k1)\<close> and
  \<^verbatim>\<open>non_adjacent\<close>.
\<close>

fun ciclo_adiacenti ::
  "(nat \<times> nat \<times> nat) list \<Rightarrow> nat \<times> nat \<times> nat \<Rightarrow> (nat \<times> nat \<times> nat) list \<Rightarrow>
   (nat \<times> nat \<times> nat) \<times> (nat \<times> nat \<times> nat) list" where
  "ciclo_adiacenti [] st non_adjacent = (st, non_adjacent)"
| "ciclo_adiacenti ((i2, j2, k2) # rest) (i1, j1, k1) non_adjacent =
     (if i1 + k1 = i2 \<and> j1 + k1 = j2
      then ciclo_adiacenti rest (i1, j1, k1 + k2) non_adjacent
      else ciclo_adiacenti rest (i2, j2, k2)
             (if k1 \<noteq> 0 then non_adjacent @ [(i1, j1, k1)] else non_adjacent))"

definition get_matching_blocks :: "'a list \<Rightarrow> 'a list \<Rightarrow> (nat \<times> nat \<times> nat) list" where
  "get_matching_blocks a b =
     (let la = length a; lb = length b;
          matching_blocks = ordina (ciclo_coda a b [(0, la, 0, lb)] [])
      in case ciclo_adiacenti matching_blocks (0, 0, 0) [] of
           ((i1, j1, k1), non_adjacent) \<Rightarrow>
             (if k1 \<noteq> 0 then non_adjacent @ [(i1, j1, k1)] else non_adjacent) @ [(la, lb, 0)])"

text \<open>
  \<^verbatim>\<open>ratio\<close> and \<^verbatim>\<open>_calculate_ratio\<close>. Python returns the double nearest to
  \<open>2 * matches / length\<close>; the model returns the rational itself. The program only
  compares a ratio with the literals \<^verbatim>\<open>0.8\<close> and \<^verbatim>\<open>0.85\<close>; rounding to nearest is
  monotone and the ratio is a fraction with denominator \<open>length\<close>, so the comparison of
  the doubles and the comparison of the rationals with \<open>8/10\<close> and \<open>85/100\<close> agree
  as long as \<open>length\<close> is below \<open>2^50\<close>.
\<close>

definition calculate_ratio :: "nat \<Rightarrow> nat \<Rightarrow> rat" where
  "calculate_ratio matches len = (if len \<noteq> 0 then 2 * of_nat matches / of_nat len else 1)"

definition ratio :: "'a list \<Rightarrow> 'a list \<Rightarrow> rat" where
  "ratio a b =
     calculate_ratio (sum_list (map (\<lambda>(i, j, k). k) (get_matching_blocks a b)))
       (length a + length b)"

text \<open>
  The invariant of the two loops of \<open>find_longest_match\<close>: the best match so far
  lies in \<^verbatim>\<open>a[alo:lm]\<close> and \<^verbatim>\<open>b[blo:bhi]\<close>, where \<open>lm\<close> is the row being read, and
  every recorded length fits before its position.
\<close>

definition inv_j :: "nat \<Rightarrow> nat \<Rightarrow> nat \<Rightarrow> nat \<Rightarrow> stato_flm \<Rightarrow> bool" where
  "inv_j alo blo bhi lm st \<longleftrightarrow>
     (case st of (m, besti, bestj, bestsize) \<Rightarrow>
        alo \<le> besti \<and> besti + bestsize \<le> lm \<and> blo \<le> bestj \<and>
        (bestj + bestsize \<le> bhi \<or> (bestsize = 0 \<and> bestj = blo)) \<and>
        (\<forall>j k. m j = Some k \<longrightarrow> 1 \<le> k \<and> alo + k \<le> lm \<and> blo + k \<le> j + 1 \<and> j < bhi))"

text \<open>A match \<open>(i, j, k)\<close> that lies in \<^verbatim>\<open>a[alo:ahi]\<close> and \<^verbatim>\<open>b[blo:bhi]\<close>.\<close>

definition entro :: "nat \<Rightarrow> nat \<Rightarrow> nat \<Rightarrow> nat \<Rightarrow> nat \<times> nat \<times> nat \<Rightarrow> bool" where
  "entro alo ahi blo bhi t \<longleftrightarrow>
     (case t of (i, j, k) \<Rightarrow>
        alo \<le> i \<and> i + k \<le> ahi \<and> blo \<le> j \<and> (j + k \<le> bhi \<or> (k = 0 \<and> j = blo)))"

text \<open>The measure that decreases in the loop of \<^verbatim>\<open>get_matching_blocks\<close>.\<close>

definition peso_coda :: "(nat \<times> nat \<times> nat \<times> nat) list \<Rightarrow> nat" where
  "peso_coda queue = sum_list (map (\<lambda>(alo, ahi, blo, bhi). 2 * (ahi - alo) + 1) queue)"

text \<open>
  A queue whose ranges lie in the two sequences. \<open>find_longest_match\<close> reads \<^verbatim>\<open>a[i]\<close>
  for \<open>alo \<le> i < ahi\<close> and \<^verbatim>\<open>b[j]\<close> for \<open>blo \<le> j < bhi\<close> only, so with such a queue
  no index is out of range.
\<close>

definition coda_entro :: "nat \<Rightarrow> nat \<Rightarrow> (nat \<times> nat \<times> nat \<times> nat) list \<Rightarrow> bool" where
  "coda_entro la lb queue \<longleftrightarrow>
     list_all (\<lambda>(alo, ahi, blo, bhi). alo \<le> ahi \<and> ahi \<le> la \<and> blo \<le> bhi \<and> bhi \<le> lb) queue"

definition blocchi_entro :: "nat \<Rightarrow> nat \<Rightarrow> (nat \<times> nat \<times> nat) list \<Rightarrow> bool" where
  "blocchi_entro la lb blocks \<longleftrightarrow> list_all (\<lambda>(i, j, k). i + k \<le> la \<and> j + k \<le> lb) blocks"

text \<open>
  The number of elements in a row, just before position \<open>i\<close> of \<open>a\<close>, that are not
  popular: the longest match that the loops of \<open>find_longest_match\<close> can record at the
  end of a row when a sequence is compared with itself.
\<close>

fun corsa :: "'a list \<Rightarrow> nat \<Rightarrow> nat" where
  "corsa a 0 = 0"
| "corsa a (Suc i) = (if popolare a (a ! i) then 0 else corsa a i + 1)"

text \<open>
  The invariant of the outer loop when \<open>a\<close> is compared with itself, before the row
  \<open>i\<close>: the best match lies on the diagonal, no recorded length exceeds the run that
  ends at its position or at the row before, the best length is at least every run
  that ends before the row, and the length recorded on the diagonal is the run.
\<close>

definition inv_diagonale :: "'a list \<Rightarrow> nat \<Rightarrow> stato_flm \<Rightarrow> bool" where
  "inv_diagonale a i st \<longleftrightarrow>
     (case st of (j2len, besti, bestj, bestsize) \<Rightarrow>
        besti = bestj \<and>
        (\<forall>j k. j2len j = Some k \<longrightarrow> k \<le> corsa a (Suc j) \<and> k \<le> corsa a i) \<and>
        (\<forall>j<i. corsa a (Suc j) \<le> bestsize) \<and>
        j2len_prec j2len i = corsa a i)"

section \<open>\<^verbatim>\<open>calcola_similarita\<close>, \<^verbatim>\<open>trova_frasi_uniche\<close>, \<^verbatim>\<open>unisci_testo_pagina\<close>\<close>

definition calcola_similarita :: "unicode \<Rightarrow> ustr \<Rightarrow> ustr \<Rightarrow> rat" where
  "calcola_similarita U testo1 testo2 =
     (if testo1 = [] \<or> testo2 = [] then 0
      else ratio (str_lower U testo1) (str_lower U testo2))"

text \<open>
  \<^verbatim>\<open>re.split(r'[.!?]+', testo)\<close>: the pieces between the maximal runs of
  terminators; the first argument is the piece being read.
\<close>

function re_split :: "ustr \<Rightarrow> ustr \<Rightarrow> ustr list" where
  "re_split pezzo [] = [pezzo]"
| "re_split pezzo (c # cs) =
     (if terminatore c then pezzo # re_split [] (dropWhile terminatore cs)
      else re_split (pezzo @ [c]) cs)"
  by pat_completeness auto
termination
  by (relation "measure (\<lambda>(pezzo, s). length s)")
     (auto simp: le_imp_less_Suc length_dropWhile_le)

text \<open>
  The inner loop of \<^verbatim>\<open>trova_frasi_uniche\<close> (lines 181-185); its result is
  \<^verbatim>\<open>trovata\<close>. \<^verbatim>\<open>frasi_base\<close> is a Python set, here the list of its elements without
  repetition; the loop stops at the first element that passes the test, so its result
  does not depend on the order in which the set is visited.
\<close>

fun ciclo_base :: "unicode \<Rightarrow> ustr \<Rightarrow> ustr list \<Rightarrow> bool" where
  "ciclo_base U frase_pulita [] = False"
| "ciclo_base U frase_pulita (frase_base # frasi_base) =
     (if calcola_similarita U (str_lower U frase_pulita) (str_strip frase_base) > 85 / 100
      then True
      else ciclo_base U frase_pulita frasi_base)"

text \<open>The outer loop (lines 169-188); the last argument is \<^verbatim>\<open>frasi_nuove\<close>.\<close>

fun ciclo_frasi :: "unicode \<Rightarrow> ustr list \<Rightarrow> ustr list \<Rightarrow> ustr list \<Rightarrow> ustr list" where
  "ciclo_frasi U frasi_base [] frasi_nuove = frasi_nuove"
| "ciclo_frasi U frasi_base (frase # frasi_ocr) frasi_nuove =
     (let frase_pulita = str_strip frase in
      if frase_pulita = [] \<or> length frase_pulita < 15
        then ciclo_frasi U frasi_base frasi_ocr frasi_nuove
      else if \<not> is_frase_valida U frase_pulita
        then ciclo_frasi U frasi_base frasi_ocr frasi_nuove
      else if \<not> ciclo_base U frase_pulita frasi_base
        then ciclo_frasi U frasi_base frasi_ocr (frasi_nuove @ [frase_pulita])
      else ciclo_frasi U frasi_base frasi_ocr frasi_nuove)"

definition trova_frasi_uniche :: "unicode \<Rightarrow> ustr \<Rightarrow> ustr \<Rightarrow> ustr list" where
  "trova_frasi_uniche U testo_base testo_ocr =
     (if testo_ocr = [] then []
      else if testo_base = [] then
        map str_strip
          (filter (\<lambda>f. length (str_strip f) > 15 \<and> is_frase_valida U (str_strip f))
             (re_split [] testo_ocr))
      else
        (let frasi_base = remdups (re_split [] (str_lower U testo_base));
             frasi_ocr = re_split [] testo_ocr
         in ciclo_frasi U frasi_base frasi_ocr []))"

text \<open>
  \<^verbatim>\<open>unisci_testo_pagina\<close>. The \<^verbatim>\<open>print\<close> calls write a progress line and change no
  value; \<^verbatim>\<open>num_pagina\<close> is used by them alone, and both are left out.
\<close>

definition unisci_testo_pagina :: "unicode \<Rightarrow> ustr \<Rightarrow> ustr \<Rightarrow> ustr" where
  "unisci_testo_pagina U testo_nativo testo_ocr =
     (if testo_nativo = [] \<or> length (str_strip testo_nativo) < 10
      then (if testo_ocr \<noteq> [] then testo_ocr else [])
      else if testo_ocr = [] \<or> length (str_strip testo_ocr) < 10 then testo_nativo
      else
        (let similarita = calcola_similarita U testo_nativo testo_ocr in
         if similarita > 8 / 10 then testo_nativo
         else
           (let frasi_nuove = trova_frasi_uniche U testo_nativo testo_ocr in
            if frasi_nuove \<noteq> []
            then testo_nativo @ [46, 32] @ str_join [46, 32] frasi_nuove
            else testo_nativo)))"

section \<open>\<^verbatim>\<open>estrai_testo_completo_pdf\<close>\<close>

text \<open>
  The two loops \<^verbatim>\<open>while len(testi) < num_pagine: testi.append("")\<close>.
\<close>

function riempi :: "nat \<Rightarrow> ustr list \<Rightarrow> ustr list" where
  "riempi num_pagine testi =
     (if length testi < num_pagine then riempi num_pagine (testi @ [[]]) else testi)"
  by pat_completeness auto
termination
  by (relation "measure (\<lambda>(num_pagine, testi). num_pagine - length testi)") auto

declare riempi.simps [simp del]

text \<open>
  The loop \<^verbatim>\<open>for i in range(num_pagine)\<close>; the last argument is \<^verbatim>\<open>testi_finali\<close>.
  Both lists have \<^verbatim>\<open>num_pagine\<close> elements when it runs, so every index is in range.
\<close>

fun ciclo_pagine :: "unicode \<Rightarrow> ustr list \<Rightarrow> ustr list \<Rightarrow> nat list \<Rightarrow> ustr list \<Rightarrow> ustr list" where
  "ciclo_pagine U testi_nativi testi_ocr [] testi_finali = testi_finali"
| "ciclo_pagine U testi_nativi testi_ocr (i # is) testi_finali =
     (let testo_unito = unisci_testo_pagina U (testi_nativi ! i) (testi_ocr ! i) in
      if testo_unito \<noteq> []
      then ciclo_pagine U testi_nativi testi_ocr is (testi_finali @ [testo_unito])
      else ciclo_pagine U testi_nativi testi_ocr is testi_finali)"

text \<open>
  \<^verbatim>\<open>estrai_testo_completo_pdf\<close> from line 236 on. Its arguments are the lists that
  \<^verbatim>\<open>estrai_testo_per_pagina_pdf\<close> and \<^verbatim>\<open>estrai_testo_ocr_per_pagina\<close> returned for the
  file, which come from the PDF reader and the OCR engine.
\<close>

definition estrai_testo_completo_pdf :: "unicode \<Rightarrow> ustr list \<Rightarrow> ustr list \<Rightarrow> ustr" where
  "estrai_testo_completo_pdf U testi_nativi testi_ocr =
     (let num_pagine = max (length testi_nativi) (length testi_ocr);
          nativi = riempi num_pagine testi_nativi;
          ocr = riempi num_pagine testi_ocr;
          testi_finali = ciclo_pagine U nativi ocr [0..<num_pagine] []
      in str_join [32] testi_finali)"

text \<open>
  A sentence of the OCR text, trimmed, that supplements the native text: it has at least
  15 characters, it is a valid sentence, and its similarity with every sentence of the
  native text in lower case is at most 0.85.
\<close>

definition supplemento :: "unicode \<Rightarrow> ustr \<Rightarrow> ustr \<Rightarrow> bool" where
  "supplemento U testo_nativo f \<longleftrightarrow>
     15 \<le> length f \<and> is_frase_valida U f \<and>
     (\<forall>frase_base\<in>set (re_split [] (str_lower U testo_nativo)).
        calcola_similarita U (str_lower U f) (str_strip frase_base) \<le> 85 / 100)"

section \<open>The command line\<close>

text \<open>
  What the program does to the outside: the lines it prints, the files it writes, and
  whether an exception left the call.
\<close>

record effetti =
  stampe :: "ustr list"
  file_scritti :: "(ustr \<times> ustr) list"
  eccezione :: bool

text \<open>
  What the program reads from the outside: whether the imports of lines 8-11 succeed,
  which paths exist (\<^verbatim>\<open>Path.exists\<close>), and \<open>prosegui\<close>, the effects of lines 307-376
  of \<^verbatim>\<open>elabora_cartella\<close> for a folder and an output folder: they list the folder, ask
  for the block size, call the PDF reader and the OCR engine and write the files, and
  are reached only when the folder exists.
\<close>

record ambiente =
  librerie :: bool
  esiste :: "ustr \<Rightarrow> bool"
  prosegui :: "ustr \<Rightarrow> ustr \<Rightarrow> effetti"

text \<open>\<^verbatim>\<open>elabora_cartella\<close>, lines 301-305, and then the rest.\<close>

definition elabora_cartella :: "ambiente \<Rightarrow> ustr \<Rightarrow> ustr \<Rightarrow> effetti" where
  "elabora_cartella amb cartella output_folder =
     (if \<not> esiste amb cartella
      then \<lparr> stampe = [u ''Errore: la cartella '' @ [39] @ cartella @ [39] @ u '' non esiste.''],
             file_scritti = [], eccezione = False \<rparr>
      else prosegui amb cartella output_folder)"

text \<open>
  The process: lines 7-15 and 378-387. \<^verbatim>\<open>sys.exit(1)\<close> ends it with status 1, an
  exception that nothing catches ends it with status 1, and a script that reaches its
  end has status 0.
\<close>

record processo =
  stato_uscita :: int
  righe :: "ustr list"
  scritti :: "(ustr \<times> ustr) list"

definition programma :: "ambiente \<Rightarrow> ustr list \<Rightarrow> processo" where
  "programma amb argv =
     (if \<not> librerie amb
      then \<lparr> stato_uscita = 1,
             righe = [u ''Errore: librerie mancanti. Installa con:'',
                      u ''pip install pytesseract pdf2image pillow PyPDF2''],
             scritti = [] \<rparr>
      else if length argv < 2
      then \<lparr> stato_uscita = 1,
             righe = [u ''Uso: python main.py <cartella> [cartella_output]'',
                      [10] @ u ''Esempio: python main.py ./slide txt_output''],
             scritti = [] \<rparr>
      else
        (let cartella = argv ! 1;
             output_folder = (if length argv > 2 then argv ! 2 else u ''output_txt'');
             e = elabora_cartella amb cartella output_folder
         in \<lparr> stato_uscita = (if eccezione e then 1 else 0),
                righe = stampe e,
                scritti = file_scritti e \<rparr>))"

text \<open>An environment in which no path exists.\<close>

definition ambiente_vuoto :: ambiente where
  "ambiente_vuoto =
     \<lparr> librerie = True, esiste = (\<lambda>p. False),
       prosegui = (\<lambda>cartella output_folder. \<lparr> stampe = [], file_scritti = [], eccezione = False \<rparr>) \<rparr>"

section \<open>Properties of the sentence blocks\<close>

lemma ciclo_blocchi_concat:
  "ciclo_blocchi n frasi (bs, cur, cnt) = (bs', cur', cnt') \<Longrightarrow>
   concat bs' @ cur' = concat bs @ cur @ frasi"
proof (induction frasi arbitrary: bs cur cnt)
  case Nil
  then show ?case by simp
next
  case (Cons f frasi)
  show ?case
  proof (cases "int (cnt + length (str_split f)) > n \<and> cur \<noteq> []")
    case True
    with Cons.prems have "ciclo_blocchi n frasi (bs @ [cur], [f], length (str_split f)) = (bs', cur', cnt')"
      by (simp add: passo_blocco_def)
    from Cons.IH[OF this] show ?thesis by simp
  next
    case False
    with Cons.prems have "ciclo_blocchi n frasi (bs, cur @ [f], cnt + length (str_split f)) = (bs', cur', cnt')"
      by (auto simp add: passo_blocco_def Let_def)
    from Cons.IH[OF this] show ?thesis by simp
  qed
qed

lemma concat_blocchi_di: "concat (blocchi_di testo n) = frasi_complete testo"
proof -
  obtain bs cur cnt where r: "ciclo_blocchi n (frasi_complete testo) ([], [], 0) = (bs, cur, cnt)"
    by (metis prod_cases3)
  from ciclo_blocchi_concat[OF r] have "concat bs @ cur = frasi_complete testo" by simp
  with r show ?thesis by (auto simp add: blocchi_di_def)
qed

lemma parole_blocco_snoc: "parole_blocco (b @ [f]) = parole_blocco b + length (str_split f)"
  by (simp add: parole_blocco_def)

lemma passo_blocco_inv:
  assumes "\<forall>b\<in>set bs. blocco_ok n b" and "cur \<noteq> [] \<longrightarrow> blocco_ok n cur"
    and "cnt = parole_blocco cur"
    and "passo_blocco n (bs, cur, cnt) f = (bs', cur', cnt')"
  shows "(\<forall>b\<in>set bs'. blocco_ok n b) \<and> blocco_ok n cur' \<and> cnt' = parole_blocco cur'"
proof (cases "int (cnt + length (str_split f)) > n \<and> cur \<noteq> []")
  case True
  with assms(4) have e: "bs' = bs @ [cur]" "cur' = [f]" "cnt' = length (str_split f)"
    by (simp_all add: passo_blocco_def)
  have "blocco_ok n [f]"
    by (auto simp: blocco_ok_def parole_blocco_def)
  with e True assms(1,2) show ?thesis by (auto simp: parole_blocco_def)
next
  case False
  with assms(4) have e: "bs' = bs" "cur' = cur @ [f]" "cnt' = cnt + length (str_split f)"
    by (auto simp add: passo_blocco_def Let_def)
  have "blocco_ok n (cur @ [f])"
  proof (cases "cur = []")
    case True
    then show ?thesis by (auto simp: blocco_ok_def parole_blocco_def)
  next
    case False
    with \<open>\<not> (int (cnt + length (str_split f)) > n \<and> cur \<noteq> [])\<close>
    have "int (cnt + length (str_split f)) \<le> n" by simp
    then show ?thesis using assms(3) by (simp add: blocco_ok_def parole_blocco_snoc)
  qed
  with e assms(1,3) show ?thesis by (simp add: parole_blocco_snoc)
qed

lemma ciclo_blocchi_inv:
  "\<forall>b\<in>set bs. blocco_ok n b \<Longrightarrow> cur \<noteq> [] \<longrightarrow> blocco_ok n cur \<Longrightarrow> cnt = parole_blocco cur \<Longrightarrow>
   ciclo_blocchi n frasi (bs, cur, cnt) = (bs', cur', cnt') \<Longrightarrow>
   (\<forall>b\<in>set bs'. blocco_ok n b) \<and> (cur' \<noteq> [] \<longrightarrow> blocco_ok n cur')"
proof (induction frasi arbitrary: bs cur cnt)
  case Nil
  then show ?case by simp
next
  case (Cons f frasi)
  obtain bs1 cur1 cnt1 where p: "passo_blocco n (bs, cur, cnt) f = (bs1, cur1, cnt1)"
    by (metis prod_cases3)
  from passo_blocco_inv[OF Cons.prems(1,2,3) p]
  have i: "\<forall>b\<in>set bs1. blocco_ok n b" "blocco_ok n cur1" "cnt1 = parole_blocco cur1" by auto
  from Cons.prems(4) p have "ciclo_blocchi n frasi (bs1, cur1, cnt1) = (bs', cur', cnt')" by simp
  from Cons.IH[OF i(1) _ i(3) this] i(2) show ?case by simp
qed

lemma blocchi_di_ok: "b \<in> set (blocchi_di testo n) \<Longrightarrow> blocco_ok n b"
proof -
  assume b: "b \<in> set (blocchi_di testo n)"
  obtain bs cur cnt where r: "ciclo_blocchi n (frasi_complete testo) ([], [], 0) = (bs, cur, cnt)"
    by (metis prod_cases3)
  have "(\<forall>b\<in>set bs. blocco_ok n b) \<and> (cur \<noteq> [] \<longrightarrow> blocco_ok n cur)"
    by (rule ciclo_blocchi_inv[OF _ _ _ r]) (simp_all add: parole_blocco_def)
  with r b show ?thesis by (auto simp: blocchi_di_def split: if_splits)
qed

lemma str_strip_last:
  assumes "s \<noteq> []" "\<not> isspace (last s)"
  shows "str_strip s \<noteq> [] \<and> last (str_strip s) = last s"
proof -
  let ?t = "dropWhile isspace s"
  have m: "last s \<in> set s" using assms(1) by simp
  have t: "?t \<noteq> []" using assms m by auto
  have lt: "last ?t = last s" using m assms(2) by (rule dropWhile_last)
  from t obtain ys where ys: "?t = ys @ [last s]"
    by (metis lt append_butlast_last_id)
  have "str_strip s = rev (dropWhile isspace (last s # rev ys))"
    by (simp add: str_strip_def ys)
  also have "\<dots> = ys @ [last s]" using assms(2) by simp
  finally show ?thesis by simp
qed

lemma set_str_strip: "set (str_strip s) \<subseteq> set s"
proof
  fix x assume "x \<in> set (str_strip s)"
  then have "x \<in> set (dropWhile isspace (rev (dropWhile isspace s)))"
    by (simp add: str_strip_def)
  then have "x \<in> set (rev (dropWhile isspace s))" by (rule set_dropWhileD)
  then have "x \<in> set (dropWhile isspace s)" by simp
  then show "x \<in> set s" by (rule set_dropWhileD)
qed

lemma terminatore_not_space: "terminatore c \<Longrightarrow> \<not> isspace c"
  by (auto simp: terminatore_def isspace_def)

lemma scomposta_Nil: "\<forall>x\<in>set r. \<not> terminatore x \<Longrightarrow> scomposta r [] [] r"
  by (simp add: scomposta_def)

lemma scomposta_Cons:
  assumes "scomposta t ps ds r" and "\<forall>x\<in>set p. \<not> terminatore x"
    and "d \<noteq> []" and "\<forall>x\<in>set d. terminatore x" and "ps \<noteq> [] \<longrightarrow> hd ps \<noteq> []"
  shows "scomposta (p @ d @ t) (p # ps) (d # ds) r"
proof -
  have idx: "\<forall>i. 0 < i \<and> i < length (p # ps) \<longrightarrow> (p # ps) ! i \<noteq> []"
  proof (intro allI impI)
    fix i assume i: "0 < i \<and> i < length (p # ps)"
    then obtain k where k: "i = Suc k" by (cases i) auto
    show "(p # ps) ! i \<noteq> []"
    proof (cases k)
      case 0
      with k i assms(5) show ?thesis by (cases ps) auto
    next
      case (Suc m)
      with k i assms(1) show ?thesis by (auto simp: scomposta_def)
    qed
  qed
  have "p @ d @ t = concat (map2 (@) (p # ps) (d # ds)) @ r"
    using assms(1) by (simp add: scomposta_def)
  moreover have "length (p # ps) = length (d # ds)"
    using assms(1) by (simp add: scomposta_def)
  moreover have "\<forall>q\<in>set (p # ps). \<forall>x\<in>set q. \<not> terminatore x"
    using assms(1,2) by (simp add: scomposta_def)
  moreover have "\<forall>e\<in>set (d # ds). e \<noteq> [] \<and> (\<forall>x\<in>set e. terminatore x)"
    using assms(1,3,4) by (simp add: scomposta_def)
  moreover have "\<forall>x\<in>set r. \<not> terminatore x"
    using assms(1) by (simp add: scomposta_def)
  ultimately show ?thesis using idx unfolding scomposta_def by blast
qed

lemma re_split_cattura_struttura:
  "\<forall>x\<in>set pezzo. \<not> terminatore x \<Longrightarrow>
   \<exists>ps ds r. scomposta (pezzo @ s) ps ds r \<and>
     (ps \<noteq> [] \<and> hd ps = [] \<longrightarrow> pezzo = [] \<and> s \<noteq> [] \<and> terminatore (hd s)) \<and>
     unisci_coppie (re_split_cattura pezzo s) = map str_strip (map2 (@) ps ds) \<and>
     last (re_split_cattura pezzo s) = r \<and>
     length (re_split_cattura pezzo s) mod 2 = 1"
proof (induction pezzo s rule: re_split_cattura.induct)
  case (1 pezzo)
  have "scomposta (pezzo @ []) [] [] pezzo" using 1 by (simp add: scomposta_Nil)
  then show ?case by fastforce
next
  case (2 pezzo c cs)
  show ?case
  proof (cases "terminatore c")
    case True
    let ?d = "c # takeWhile terminatore cs"
    let ?s' = "dropWhile terminatore cs"
    have "\<forall>x\<in>set ([]::ustr). \<not> terminatore x" by simp
    from 2(1)[OF True this] obtain ps ds r where
      h: "scomposta ([] @ ?s') ps ds r"
        "ps \<noteq> [] \<and> hd ps = [] \<longrightarrow> ([]::ustr) = [] \<and> ?s' \<noteq> [] \<and> terminatore (hd ?s')"
        "unisci_coppie (re_split_cattura [] ?s') = map str_strip (map2 (@) ps ds)"
        "last (re_split_cattura [] ?s') = r"
        "length (re_split_cattura [] ?s') mod 2 = 1"
      by blast
    have ne: "re_split_cattura [] ?s' \<noteq> []" using h(5) by auto
    have hdps: "ps \<noteq> [] \<longrightarrow> hd ps \<noteq> []"
    proof (intro impI notI)
      assume a: "ps \<noteq> []" "hd ps = []"
      with h(2) have "?s' \<noteq> []" "terminatore (hd ?s')" by auto
      then show False by (metis hd_dropWhile)
    qed
    have dok: "\<forall>x\<in>set ?d. terminatore x" using True by (auto dest: set_takeWhileD)
    have "scomposta (pezzo @ ?d @ ?s') (pezzo # ps) (?d # ds) r"
      by (rule scomposta_Cons) (use h(1) 2(3) dok hdps in simp_all)
    moreover have "pezzo @ ?d @ ?s' = pezzo @ c # cs" by simp
    ultimately have s: "scomposta (pezzo @ c # cs) (pezzo # ps) (?d # ds) r" by simp
    have u: "unisci_coppie (re_split_cattura pezzo (c # cs)) = map str_strip (map2 (@) (pezzo # ps) (?d # ds))"
      using True h(3) by simp
    have l: "last (re_split_cattura pezzo (c # cs)) = r" using True h(4) ne by simp
    have m: "length (re_split_cattura pezzo (c # cs)) mod 2 = 1" using True h(5) by simp
    have e: "pezzo # ps \<noteq> [] \<and> hd (pezzo # ps) = [] \<longrightarrow> pezzo = [] \<and> c # cs \<noteq> [] \<and> terminatore (hd (c # cs))"
      using True by simp
    from s u l m e show ?thesis by blast
  next
    case False
    have p: "\<forall>x\<in>set (pezzo @ [c]). \<not> terminatore x" using 2(3) False by auto
    from 2(2)[OF False p] obtain ps ds r where
      h: "scomposta ((pezzo @ [c]) @ cs) ps ds r"
        "ps \<noteq> [] \<and> hd ps = [] \<longrightarrow> pezzo @ [c] = [] \<and> cs \<noteq> [] \<and> terminatore (hd cs)"
        "unisci_coppie (re_split_cattura (pezzo @ [c]) cs) = map str_strip (map2 (@) ps ds)"
        "last (re_split_cattura (pezzo @ [c]) cs) = r"
        "length (re_split_cattura (pezzo @ [c]) cs) mod 2 = 1"
      by blast
    have s: "scomposta (pezzo @ c # cs) ps ds r" using h(1) by simp
    have e: "ps \<noteq> [] \<and> hd ps = [] \<longrightarrow> pezzo = [] \<and> c # cs \<noteq> [] \<and> terminatore (hd (c # cs))"
      using h(2) by auto
    have "unisci_coppie (re_split_cattura pezzo (c # cs)) = map str_strip (map2 (@) ps ds)"
      "last (re_split_cattura pezzo (c # cs)) = r"
      "length (re_split_cattura pezzo (c # cs)) mod 2 = 1"
      using False h(3,4,5) by simp_all
    with s e show ?thesis by blast
  qed
qed

lemma frasi_complete_struttura:
  "\<exists>ps ds r. scomposta testo ps ds r \<and>
     frasi_complete testo =
       map str_strip (map2 (@) ps ds) @ (if str_strip r \<noteq> [] then [str_strip r] else [])"
proof -
  have "\<forall>x\<in>set ([]::ustr). \<not> terminatore x" by simp
  from re_split_cattura_struttura[OF this, of testo] obtain ps ds r where
    h: "scomposta ([] @ testo) ps ds r"
       "unisci_coppie (re_split_cattura [] testo) = map str_strip (map2 (@) ps ds)"
       "last (re_split_cattura [] testo) = r"
       "length (re_split_cattura [] testo) mod 2 = 1"
    by blast
  have "frasi_complete testo =
       map str_strip (map2 (@) ps ds) @ (if str_strip r \<noteq> [] then [str_strip r] else [])"
    using h(2,3,4) by (simp add: frasi_complete_def Let_def)
  with h(1) show ?thesis by auto
qed

lemma frasi_complete_terminate:
  "(\<forall>f\<in>set (butlast (frasi_complete testo)). f \<noteq> [] \<and> terminatore (last f)) \<and>
   (frasi_complete testo \<noteq> [] \<longrightarrow>
      last (frasi_complete testo) \<noteq> [] \<and>
      (terminatore (last (last (frasi_complete testo))) \<or>
       (\<forall>x\<in>set (last (frasi_complete testo)). \<not> terminatore x)))"
proof -
  obtain ps ds r where s: "scomposta testo ps ds r"
    and f: "frasi_complete testo =
       map str_strip (map2 (@) ps ds) @ (if str_strip r \<noteq> [] then [str_strip r] else [])"
    using frasi_complete_struttura by blast
  have t: "\<forall>f\<in>set (map str_strip (map2 (@) ps ds)). f \<noteq> [] \<and> terminatore (last f)"
  proof
    fix g assume "g \<in> set (map str_strip (map2 (@) ps ds))"
    then obtain p d where pd: "(p, d) \<in> set (zip ps ds)" "g = str_strip (p @ d)" by auto
    from pd(1) have "d \<in> set ds" by (rule set_zip_rightD)
    with s have d: "d \<noteq> []" "terminatore (last d)" by (auto simp: scomposta_def)
    then have "p @ d \<noteq> []" "\<not> isspace (last (p @ d))"
      by (simp_all add: terminatore_not_space)
    from str_strip_last[OF this] d pd(2) show "g \<noteq> [] \<and> terminatore (last g)" by simp
  qed
  show ?thesis
  proof (cases "str_strip r \<noteq> []")
    case True
    have "\<forall>x\<in>set (str_strip r). \<not> terminatore x"
      using s set_str_strip[of r] by (auto simp: scomposta_def)
    with True f t show ?thesis by (simp add: butlast_append)
  next
    case False
    with f have e: "frasi_complete testo = map str_strip (map2 (@) ps ds)" by simp
    have "\<forall>f\<in>set (butlast (frasi_complete testo)). f \<noteq> [] \<and> terminatore (last f)"
      using t e by (metis in_set_butlastD)
    moreover have "frasi_complete testo \<noteq> [] \<longrightarrow>
      last (frasi_complete testo) \<noteq> [] \<and> terminatore (last (last (frasi_complete testo)))"
      using t e by (metis last_in_set)
    ultimately show ?thesis by blast
  qed
qed

lemma last_concat_nonempty:
  "B \<noteq> [] \<Longrightarrow> \<forall>b\<in>set B. b \<noteq> [] \<Longrightarrow> last (concat B) = last (last B) \<and> concat B \<noteq> []"
  by (induction B) auto


text \<open>
  Claim C10. For every text and every positive budget, the blocks partition the sentence
  sequence without loss, duplication or reordering: the sentences of the blocks, taken
  in block order, are exactly \<open>frasi_complete testo\<close>; and no block is empty, so every
  sentence sits in exactly one block.
\<close>

theorem blocchi_partizione:
  assumes "0 < n"
  shows "concat (blocchi_di testo n) = frasi_complete testo \<and>
         (\<forall>b\<in>set (blocchi_di testo n). b \<noteq> [])"
proof -
  have "\<forall>b\<in>set (blocchi_di testo n). b \<noteq> []"
    using blocchi_di_ok by (auto simp: blocco_ok_def)
  then show ?thesis by (simp add: concat_blocchi_di)
qed

theorem blocchi_partizione_witness:
  "(0::int) < 4 \<and>
   concat (blocchi_di (u ''A short sentence. Another short one. A third.'') 4) =
     [u ''A short sentence.'', u ''Another short one.'', u ''A third.''] \<and>
   blocchi_di (u ''A short sentence. Another short one. A third.'') 4 =
     [[u ''A short sentence.''], [u ''Another short one.''], [u ''A third.'']]"
proof -
  have h: "(0::int) < 4" by simp
  have f: "frasi_complete (u ''A short sentence. Another short one. A third.'') =
     [u ''A short sentence.'', u ''Another short one.'', u ''A third.'']"
    by (simp add: frasi_complete_def u_def terminatore_def str_strip_def isspace_def Let_def)
  have b: "blocchi_di (u ''A short sentence. Another short one. A third.'') 4 =
     [[u ''A short sentence.''], [u ''Another short one.''], [u ''A third.'']]"
    by (simp add: blocchi_di_def f) (simp add: u_def isspace_def passo_blocco_def str_split_def)
  from blocchi_partizione[OF h, of "u ''A short sentence. Another short one. A third.''"] f b
  show ?thesis by simp
qed

text \<open>
  Claim C6. For every text and every positive budget, every block has at most
  \<open>parole_per_blocco\<close> words unless it is a single sentence that alone has more; a
  sentence with more words than the budget is a block by itself and is one of the
  sentences of the text, whole; and the loop never tests the budget against an empty
  current block: the sentence is appended.
\<close>

theorem blocchi_entro_il_limite:
  assumes "0 < n"
  shows "(\<forall>b\<in>set (blocchi_di testo n).
            int (parole_blocco b) \<le> n \<or> (\<exists>f. b = [f] \<and> n < int (length (str_split f)))) \<and>
         (\<forall>b\<in>set (blocchi_di testo n). \<forall>f\<in>set b.
            n < int (length (str_split f)) \<longrightarrow> b = [f] \<and> f \<in> set (frasi_complete testo)) \<and>
         (\<forall>bs c f. passo_blocco n (bs, [], c) f = (bs, [f], c + length (str_split f)))"
proof -
  have a: "\<forall>b\<in>set (blocchi_di testo n).
            int (parole_blocco b) \<le> n \<or> (\<exists>f. b = [f] \<and> n < int (length (str_split f)))"
    using blocchi_di_ok by (auto simp: blocco_ok_def)
  have b: "\<forall>b\<in>set (blocchi_di testo n). \<forall>f\<in>set b.
            n < int (length (str_split f)) \<longrightarrow> b = [f] \<and> f \<in> set (frasi_complete testo)"
  proof (intro ballI impI)
    fix b f assume b: "b \<in> set (blocchi_di testo n)" and f: "f \<in> set b"
      and big: "n < int (length (str_split f))"
    have "length (str_split f) \<le> parole_blocco b"
      unfolding parole_blocco_def using f by (simp add: member_le_sum_list)
    with big have "\<not> int (parole_blocco b) \<le> n" by linarith
    with a b obtain g where "b = [g]" by blast
    with f have "b = [f]" by simp
    moreover have "f \<in> set (concat (blocchi_di testo n))" using b f by auto
    ultimately show "b = [f] \<and> f \<in> set (frasi_complete testo)"
      by (simp add: concat_blocchi_di)
  qed
  have c: "\<forall>bs c f. passo_blocco n (bs, [], c) f = (bs, [f], c + length (str_split f))"
    by (simp add: passo_blocco_def)
  from a b c show ?thesis by blast
qed

theorem blocchi_entro_il_limite_witness:
  "(0::int) < 2 \<and>
   blocchi_di (u ''A b c. D e. F.'') 2 = [[u ''A b c.''], [u ''D e.''], [u ''F.'']] \<and>
   (int (parole_blocco [u ''D e.'']) \<le> 2 \<or>
     (\<exists>f. [u ''D e.''] = [f] \<and> 2 < int (length (str_split f)))) \<and>
   (int (parole_blocco [u ''A b c.'']) \<le> 2 \<or>
     (\<exists>f. [u ''A b c.''] = [f] \<and> 2 < int (length (str_split f)))) \<and>
   2 < int (length (str_split (u ''A b c.''))) \<and>
   u ''A b c.'' \<in> set (frasi_complete (u ''A b c. D e. F.'')) \<and>
   passo_blocco 2 ([], [], 0) (u ''A b c.'') = ([], [u ''A b c.''], 3)"
proof -
  have h: "(0::int) < 2" by simp
  have f: "frasi_complete (u ''A b c. D e. F.'') = [u ''A b c.'', u ''D e.'', u ''F.'']"
    by (simp add: frasi_complete_def u_def terminatore_def str_strip_def isspace_def Let_def)
  have b: "blocchi_di (u ''A b c. D e. F.'') 2 = [[u ''A b c.''], [u ''D e.''], [u ''F.'']]"
    by (simp add: blocchi_di_def f) (simp add: u_def isspace_def passo_blocco_def str_split_def)
  have w: "length (str_split (u ''A b c.'')) = 3"
    by (simp add: u_def isspace_def str_split_def)
  from blocchi_entro_il_limite[OF h, of "u ''A b c. D e. F.''"] b w
  show ?thesis by simp
qed

text \<open>
  Claim C7. The text is cut at its runs of \<^verbatim>\<open>.\<close>, \<^verbatim>\<open>!\<close>, \<^verbatim>\<open>?\<close>, each run
  staying with the piece before it, and the rest after the last run is kept when it is
  not blank. The blocks hold these sentences whole and in order, so every sentence of
  every block ends with a terminator, except possibly the last sentence of the last
  block, which then holds no terminator at all.
\<close>

theorem frasi_terminate_nei_blocchi:
  "(\<exists>ps ds r. scomposta testo ps ds r \<and>
      frasi_complete testo =
        map str_strip (map2 (@) ps ds) @ (if str_strip r \<noteq> [] then [str_strip r] else [])) \<and>
   concat (blocchi_di testo n) = frasi_complete testo \<and>
   (\<forall>b\<in>set (blocchi_di testo n). b \<noteq> []) \<and>
   (\<forall>f\<in>set (butlast (concat (blocchi_di testo n))). f \<noteq> [] \<and> terminatore (last f)) \<and>
   (blocchi_di testo n \<noteq> [] \<longrightarrow>
      last (last (blocchi_di testo n)) \<noteq> [] \<and>
      (terminatore (last (last (last (blocchi_di testo n)))) \<or>
       (\<forall>x\<in>set (last (last (blocchi_di testo n))). \<not> terminatore x)))"
proof -
  let ?B = "blocchi_di testo n"
  have ne: "\<forall>b\<in>set ?B. b \<noteq> []"
    using blocchi_di_ok by (auto simp: blocco_ok_def)
  have c: "concat ?B = frasi_complete testo" by (rule concat_blocchi_di)
  note t = frasi_complete_terminate[of testo]
  have l: "?B \<noteq> [] \<longrightarrow>
      last (last ?B) \<noteq> [] \<and>
      (terminatore (last (last (last ?B))) \<or> (\<forall>x\<in>set (last (last ?B)). \<not> terminatore x))"
  proof
    assume "?B \<noteq> []"
    from last_concat_nonempty[OF this ne] c
    have "last (frasi_complete testo) = last (last ?B)" "frasi_complete testo \<noteq> []" by simp_all
    with t show "last (last ?B) \<noteq> [] \<and>
      (terminatore (last (last (last ?B))) \<or> (\<forall>x\<in>set (last (last ?B)). \<not> terminatore x))"
      by metis
  qed
  from frasi_complete_struttura[of testo] c ne t l show ?thesis by simp
qed

theorem frasi_terminate_nei_blocchi_witness:
  "blocchi_di (u ''Uno due! Tre?? quattro'') 3 = [[u ''Uno due!'', u ''Tre??''], [u ''quattro'']] \<and>
   terminatore (last (u ''Uno due!'')) \<and> terminatore (last (u ''Tre??'')) \<and>
   (terminatore (last (u ''quattro'')) \<or> list_all (\<lambda>x. \<not> terminatore x) (u ''quattro''))"
proof -
  have f: "frasi_complete (u ''Uno due! Tre?? quattro'') = [u ''Uno due!'', u ''Tre??'', u ''quattro'']"
    by (simp add: frasi_complete_def u_def terminatore_def str_strip_def isspace_def Let_def)
  have b: "blocchi_di (u ''Uno due! Tre?? quattro'') 3 = [[u ''Uno due!'', u ''Tre??''], [u ''quattro'']]"
    by (simp add: blocchi_di_def f) (simp add: u_def isspace_def passo_blocco_def str_split_def)
  from frasi_terminate_nei_blocchi[of "u ''Uno due! Tre?? quattro''" 3] b
  show ?thesis by (simp add: list_all_iff)
qed

section \<open>The matcher stays in range and ends\<close>

lemma j2len_prec_bound:
  assumes "\<forall>j k. m j = Some k \<longrightarrow> 1 \<le> k \<and> alo + k \<le> i \<and> blo + k \<le> j + 1 \<and> j < bhi"
    and "blo \<le> j" and "alo \<le> i"
  shows "alo + (j2len_prec m j + 1) \<le> i + 1 \<and> blo + (j2len_prec m j + 1) \<le> j + 1"
proof (cases "j = 0")
  case True
  then show ?thesis using assms(2,3) by (simp add: j2len_prec_def)
next
  case False
  show ?thesis
  proof (cases "m (j - 1)")
    case None
    then show ?thesis using False assms(2,3) by (simp add: j2len_prec_def)
  next
    case (Some k)
    with assms(1) have "alo + k \<le> i" "blo + k \<le> j - 1 + 1" by blast+
    with Some False show ?thesis by (simp add: j2len_prec_def)
  qed
qed

lemma ciclo_j_limiti:
  assumes "\<forall>j k. m j = Some k \<longrightarrow> 1 \<le> k \<and> alo + k \<le> i \<and> blo + k \<le> j + 1 \<and> j < bhi"
    and "alo \<le> i"
  shows "inv_j alo blo bhi (i + 1) st \<Longrightarrow> inv_j alo blo bhi (i + 1) (ciclo_j m i blo bhi js st)"
proof (induction js arbitrary: st)
  case Nil
  then show ?case by simp
next
  case (Cons j js)
  obtain n bi bj bs where st: "st = (n, bi, bj, bs)" by (metis prod_cases4)
  show ?case
  proof (cases "j < blo")
    case True
    then show ?thesis using Cons st by simp
  next
    case nb: False
    show ?thesis
    proof (cases "j \<ge> bhi")
      case True
      then show ?thesis using Cons.prems st nb by simp
    next
      case False
      let ?k = "j2len_prec m j + 1"
      from nb have "blo \<le> j" by simp
      from j2len_prec_bound[OF assms(1) this assms(2)]
      have kb: "alo + ?k \<le> i + 1" "blo + ?k \<le> j + 1" by simp_all
      have i1: "inv_j alo blo bhi (i + 1) (n(j \<mapsto> ?k), i + 1 - ?k, j + 1 - ?k, ?k)"
        using kb False Cons.prems st by (auto simp: inv_j_def)
      have i2: "inv_j alo blo bhi (i + 1) (n(j \<mapsto> ?k), bi, bj, bs)"
        using kb False Cons.prems st by (auto simp: inv_j_def)
      show ?thesis
      proof (cases "?k > bs")
        case True
        with nb False st have "ciclo_j m i blo bhi (j # js) st =
           ciclo_j m i blo bhi js (n(j \<mapsto> ?k), i + 1 - ?k, j + 1 - ?k, ?k)"
          by (simp add: Let_def)
        with Cons.IH[OF i1] show ?thesis by simp
      next
        case k: False
        with nb False st have "ciclo_j m i blo bhi (j # js) st =
           ciclo_j m i blo bhi js (n(j \<mapsto> ?k), bi, bj, bs)"
          by (simp add: Let_def)
        with Cons.IH[OF i2] show ?thesis by simp
      qed
    qed
  qed
qed

lemma ciclo_i_limiti:
  "inv_j alo blo bhi i0 st \<Longrightarrow> alo \<le> i0 \<Longrightarrow> i0 \<le> ahi \<Longrightarrow>
   inv_j alo blo bhi ahi (ciclo_i a b blo bhi [i0..<ahi] st)"
proof (induction "ahi - i0" arbitrary: i0 st)
  case 0
  then show ?case by simp
next
  case (Suc n)
  then have lt: "i0 < ahi" by simp
  obtain m bi bj bs where st: "st = (m, bi, bj, bs)" by (metis prod_cases4)
  let ?st' = "ciclo_j m i0 blo bhi (b2j_get b (a ! i0)) (Map.empty, bi, bj, bs)"
  have m: "\<forall>j k. m j = Some k \<longrightarrow> 1 \<le> k \<and> alo + k \<le> i0 \<and> blo + k \<le> j + 1 \<and> j < bhi"
    using Suc.prems(1) st by (simp add: inv_j_def)
  have "inv_j alo blo bhi (i0 + 1) (Map.empty, bi, bj, bs)"
    using Suc.prems(1) st by (simp add: inv_j_def)
  from ciclo_j_limiti[OF m Suc.prems(2) this]
  have i: "inv_j alo blo bhi (Suc i0) ?st'" by simp
  have "n = ahi - Suc i0" using Suc.hyps(2) by simp
  from Suc.hyps(1)[OF this i] Suc.prems(2) lt
  have "inv_j alo blo bhi ahi (ciclo_i a b blo bhi [Suc i0..<ahi] ?st')" by simp
  then show ?case using lt st by (simp add: upt_conv_Cons)
qed

lemma estendi_indietro_entro:
  "entro alo ahi blo bhi t \<Longrightarrow> entro alo ahi blo bhi (estendi_indietro q a b alo blo t)"
proof (induction q a b alo blo t rule: estendi_indietro.induct)
  case (1 q a b alo blo besti bestj bestsize)
  show ?case
  proof (cases "besti > alo \<and> bestj > blo \<and> q (b ! (bestj - 1)) \<and> a ! (besti - 1) = b ! (bestj - 1)")
    case True
    have "entro alo ahi blo bhi (besti - 1, bestj - 1, bestsize + 1)"
      using True 1(2) by (auto simp: entro_def)
    from 1(1)[OF True this] True show ?thesis
      by (subst estendi_indietro.simps) simp
  next
    case False
    then show ?thesis using 1(2) by (subst estendi_indietro.simps) auto
  qed
qed

lemma estendi_avanti_entro:
  "entro alo ahi blo bhi t \<Longrightarrow> entro alo ahi blo bhi (estendi_avanti q a b ahi bhi t)"
proof (induction q a b ahi bhi t rule: estendi_avanti.induct)
  case (1 q a b ahi bhi besti bestj bestsize)
  show ?case
  proof (cases "besti + bestsize < ahi \<and> bestj + bestsize < bhi \<and> q (b ! (bestj + bestsize)) \<and>
         a ! (besti + bestsize) = b ! (bestj + bestsize)")
    case True
    have "entro alo ahi blo bhi (besti, bestj, bestsize + 1)"
      using True 1(2) by (auto simp: entro_def)
    from 1(1)[OF True this] True show ?thesis
      by (subst estendi_avanti.simps) simp
  next
    case False
    then show ?thesis using 1(2) by (subst estendi_avanti.simps) auto
  qed
qed

lemma find_longest_match_limiti:
  assumes "alo \<le> ahi"
  shows "entro alo ahi blo bhi (find_longest_match a b alo ahi blo bhi)"
proof -
  obtain m bi bj bs where
    c: "ciclo_i a b blo bhi [alo..<ahi] (Map.empty, alo, blo, 0) = (m, bi, bj, bs)"
    by (metis prod_cases4)
  have "inv_j alo blo bhi alo (Map.empty, alo, blo, 0)" by (simp add: inv_j_def)
  from ciclo_i_limiti[OF this _ assms, of a b] c
  have "inv_j alo blo bhi ahi (m, bi, bj, bs)" by simp
  then have "entro alo ahi blo bhi (bi, bj, bs)" by (simp add: inv_j_def entro_def)
  then show ?thesis
    unfolding find_longest_match_def c
    by (simp add: estendi_indietro_entro estendi_avanti_entro)
qed

lemma find_longest_match_vuoto:
  assumes "ahi \<le> alo"
  shows "find_longest_match a b alo ahi blo bhi = (alo, blo, 0)"
proof -
  have "[alo..<ahi] = []" using assms by simp
  then show ?thesis using assms
    by (simp add: find_longest_match_def estendi_indietro.simps estendi_avanti.simps)
qed

lemma find_longest_match_passo:
  assumes "find_longest_match a b alo ahi blo bhi = (i, j, k)" and "k \<noteq> 0"
  shows "alo \<le> i \<and> i + k \<le> ahi \<and> blo \<le> j \<and> j + k \<le> bhi"
proof (cases "alo \<le> ahi")
  case True
  from find_longest_match_limiti[OF this, of blo bhi a b] assms show ?thesis
    by (simp add: entro_def)
next
  case False
  then have "ahi \<le> alo" by simp
  from find_longest_match_vuoto[OF this, of a b blo bhi] assms show ?thesis by simp
qed

lemma peso_coda_passo:
  assumes "find_longest_match a b alo ahi blo bhi = (i, j, k)" and "k \<noteq> 0"
  shows "peso_coda ((if i + k < ahi \<and> j + k < bhi then [(i + k, ahi, j + k, bhi)] else []) @
                  (if alo < i \<and> blo < j then [(alo, i, blo, j)] else []) @ queue)
         < peso_coda ((alo, ahi, blo, bhi) # queue)"
proof -
  from find_longest_match_passo[OF assms] have "alo \<le> i" "i + k \<le> ahi" by simp_all
  with assms(2) show ?thesis by (auto simp: peso_coda_def)
qed

termination ciclo_coda
proof (relation "measure (\<lambda>(a, b, queue, mb). peso_coda queue)", goal_cases)
  case 1
  show ?case by simp
next
  case (2 a b alo ahi blo bhi queue mb i y j k)
  then have "find_longest_match a b alo ahi blo bhi = (i, j, k)" by simp
  from peso_coda_passo[OF this \<open>k \<noteq> 0\<close>] show ?case by simp
next
  case (3 a b alo ahi blo bhi queue mb i y j k)
  show ?case by (simp add: peso_coda_def)
qed

text \<open>The ranges of the queue stay in the two sequences, and so do the blocks.\<close>

lemma ciclo_coda_entro:
  "coda_entro (length a) (length b) queue \<Longrightarrow> blocchi_entro (length a) (length b) mb \<Longrightarrow>
   blocchi_entro (length a) (length b) (ciclo_coda a b queue mb)"
proof (induction a b queue mb rule: ciclo_coda.induct)
  case (1 a b mb)
  then show ?case by simp
next
  case (2 a b alo ahi blo bhi queue mb)
  obtain i j k where f: "find_longest_match a b alo ahi blo bhi = (i, j, k)"
    by (metis prod_cases3)
  from 2(3) have r: "alo \<le> ahi" "ahi \<le> length a" "blo \<le> bhi" "bhi \<le> length b"
    and q: "coda_entro (length a) (length b) queue"
    by (simp_all add: coda_entro_def)
  show ?case
  proof (cases "k = 0")
    case True
    with 2(2)[OF f[symmetric] refl _ q 2(4)] f show ?thesis by simp
  next
    case False
    from find_longest_match_passo[OF f False]
    have p: "alo \<le> i" "i + k \<le> ahi" "blo \<le> j" "j + k \<le> bhi" by simp_all
    let ?q = "(if i + k < ahi \<and> j + k < bhi then [(i + k, ahi, j + k, bhi)] else []) @
              (if alo < i \<and> blo < j then [(alo, i, blo, j)] else []) @ queue"
    have q': "coda_entro (length a) (length b) ?q"
      using p r q by (simp add: coda_entro_def)
    have m': "blocchi_entro (length a) (length b) (mb @ [(i, j, k)])"
      using p r 2(4) by (simp add: blocchi_entro_def)
    from 2(1)[OF f[symmetric] refl False q' m'] f False show ?thesis by simp
  qed
qed

lemma ciclo_coda_iniziale:
  "blocchi_entro (length a) (length b) (ciclo_coda a b [(0, length a, 0, length b)] [])"
  by (rule ciclo_coda_entro) (simp_all add: coda_entro_def blocchi_entro_def)

section \<open>A sequence compared with itself\<close>

lemma j2len_prec_corsa:
  assumes "\<forall>j k. m j = Some k \<longrightarrow> k \<le> corsa a (Suc j) \<and> k \<le> corsa a i"
  shows "j2len_prec m j \<le> corsa a j \<and> j2len_prec m j \<le> corsa a i"
proof (cases j)
  case 0
  then show ?thesis by (simp add: j2len_prec_def)
next
  case (Suc j')
  show ?thesis
  proof (cases "m j'")
    case None
    with Suc show ?thesis by (simp add: j2len_prec_def)
  next
    case (Some k)
    with assms have "k \<le> corsa a (Suc j') \<and> k \<le> corsa a i" by blast
    with Suc Some show ?thesis by (simp add: j2len_prec_def)
  qed
qed

lemma ciclo_j_diagonale:
  fixes a :: "'a list"
  assumes m: "\<forall>j k. m j = Some k \<longrightarrow> k \<le> corsa a (Suc j) \<and> k \<le> corsa a i"
    and p3: "j2len_prec m i = corsa a i"
    and st: "corsa a (Suc i) = corsa a i + 1"
  shows "\<forall>j\<in>set js. \<not> popolare a (a ! j) \<Longrightarrow> \<forall>j\<in>set js. j < bhi \<Longrightarrow> sorted_wrt (<) js \<Longrightarrow>
     \<forall>j\<in>set js. j < i \<longrightarrow> corsa a (Suc j) \<le> bs \<Longrightarrow>
     i \<in> set js \<or> corsa a (Suc i) \<le> bs \<Longrightarrow>
     \<exists>new' b' bs'. ciclo_j m i 0 bhi js (new, b, b, bs) = (new', b', b', bs') \<and>
        bs \<le> bs' \<and> corsa a (Suc i) \<le> bs' \<and>
        (\<forall>j. new' j = (if j \<in> set js then Some (j2len_prec m j + 1) else new j))"
proof (induction js arbitrary: new b bs)
  case Nil
  then show ?case by simp
next
  case (Cons j js)
  let ?k = "j2len_prec m j + 1"
  from j2len_prec_corsa[OF m, of j] have pj: "j2len_prec m j \<le> corsa a j" "j2len_prec m j \<le> corsa a i"
    by simp_all
  have npj: "\<not> popolare a (a ! j)" using Cons.prems(1) by simp
  have kj: "?k \<le> corsa a (Suc j)" using pj(1) npj by simp
  have ki: "?k \<le> corsa a (Suc i)" using pj(2) st by simp
  have jb: "\<not> j \<ge> bhi" using Cons.prems(2) by simp
  have np: "\<forall>j\<in>set js. \<not> popolare a (a ! j)" using Cons.prems(1) by simp
  have lt: "\<forall>j\<in>set js. j < bhi" using Cons.prems(2) by simp
  have so: "sorted_wrt (<) js" using Cons.prems(3) by simp
  have gt: "\<forall>x\<in>set js. j < x" using Cons.prems(3) by simp
  show ?case
  proof (cases "?k > bs")
    case True
    have ji: "j = i"
    proof (rule ccontr)
      assume ne: "j \<noteq> i"
      show False
      proof (cases "j < i")
        case True
        with Cons.prems(4) have "corsa a (Suc j) \<le> bs" by simp
        with kj \<open>?k > bs\<close> show False by linarith
      next
        case False
        with ne have "i < j" by simp
        with gt have "i \<notin> set (j # js)" by auto
        with Cons.prems(5) have "corsa a (Suc i) \<le> bs" by blast
        with ki \<open>?k > bs\<close> show False by linarith
      qed
    qed
    have keq: "?k = corsa a (Suc i)" using ji p3 st by simp
    have low: "\<forall>x\<in>set js. x < i \<longrightarrow> corsa a (Suc x) \<le> ?k" using gt ji by auto
    have dn: "i \<in> set js \<or> corsa a (Suc i) \<le> ?k" using keq by simp
    from Cons.IH[OF np lt so low dn, of "new(j \<mapsto> ?k)" "i + 1 - ?k"]
    obtain new' b' bs' where
      r: "ciclo_j m i 0 bhi js (new(j \<mapsto> ?k), i + 1 - ?k, i + 1 - ?k, ?k) = (new', b', b', bs')"
        "?k \<le> bs'" "corsa a (Suc i) \<le> bs'"
        "\<forall>x. new' x = (if x \<in> set js then Some (j2len_prec m x + 1) else (new(j \<mapsto> ?k)) x)"
      by blast
    have e: "ciclo_j m i 0 bhi (j # js) (new, b, b, bs) = (new', b', b', bs')"
      using True jb r(1) ji by (simp add: Let_def)
    have "\<forall>x. new' x = (if x \<in> set (j # js) then Some (j2len_prec m x + 1) else new x)"
      using r(4) by auto
    moreover have "bs \<le> bs'" using True r(2) by linarith
    ultimately show ?thesis using e r(3) by blast
  next
    case False
    have low: "\<forall>x\<in>set js. x < i \<longrightarrow> corsa a (Suc x) \<le> bs" using Cons.prems(4) by simp
    have dn: "i \<in> set js \<or> corsa a (Suc i) \<le> bs"
    proof (cases "i = j")
      case True
      then have "?k = corsa a (Suc i)" using p3 st by simp
      with False show ?thesis by simp
    next
      case ne: False
      with Cons.prems(5) show ?thesis by auto
    qed
    from Cons.IH[OF np lt so low dn, of "new(j \<mapsto> ?k)" b]
    obtain new' b' bs' where
      r: "ciclo_j m i 0 bhi js (new(j \<mapsto> ?k), b, b, bs) = (new', b', b', bs')"
        "bs \<le> bs'" "corsa a (Suc i) \<le> bs'"
        "\<forall>x. new' x = (if x \<in> set js then Some (j2len_prec m x + 1) else (new(j \<mapsto> ?k)) x)"
      by blast
    have e: "ciclo_j m i 0 bhi (j # js) (new, b, b, bs) = (new', b', b', bs')"
      using False jb r(1) by (simp add: Let_def)
    have "\<forall>x. new' x = (if x \<in> set (j # js) then Some (j2len_prec m x + 1) else new x)"
      using r(4) by auto
    then show ?thesis using e r(2,3) by blast
  qed
qed

lemma indici_props:
  "sorted_wrt (<) (indici a x)" "\<forall>j\<in>set (indici a x). j < length a \<and> a ! j = x"
  "i < length a \<Longrightarrow> i \<in> set (indici a (a ! i))"
  by (simp_all add: indici_def sorted_wrt_filter)

lemma riga_diagonale:
  fixes a :: "'a list"
  assumes inv: "inv_diagonale a i (m, b, b', bs)" and i: "i < length a"
  shows "inv_diagonale a (Suc i)
           (ciclo_j m i 0 (length a) (b2j_get a (a ! i)) (Map.empty, b, b', bs))"
proof -
  from inv have bb: "b' = b"
    and m: "\<forall>j k. m j = Some k \<longrightarrow> k \<le> corsa a (Suc j) \<and> k \<le> corsa a i"
    and i3: "\<forall>j<i. corsa a (Suc j) \<le> bs"
    and p3: "j2len_prec m i = corsa a i"
    by (simp_all add: inv_diagonale_def)
  show ?thesis
  proof (cases "popolare a (a ! i)")
    case True
    then have "b2j_get a (a ! i) = []" by (simp add: b2j_get_def)
    moreover have "\<forall>j<Suc i. corsa a (Suc j) \<le> bs"
      using i3 True by (auto simp: less_Suc_eq)
    ultimately show ?thesis using True bb
      by (simp add: inv_diagonale_def j2len_prec_def)
  next
    case False
    let ?js = "indici a (a ! i)"
    have js: "b2j_get a (a ! i) = ?js" using False by (simp add: b2j_get_def)
    have st: "corsa a (Suc i) = corsa a i + 1" using False by simp
    have np: "\<forall>j\<in>set ?js. \<not> popolare a (a ! j)" using False indici_props(2)[of a "a ! i"] by auto
    have lt: "\<forall>j\<in>set ?js. j < length a" using indici_props(2)[of a "a ! i"] by auto
    have low: "\<forall>j\<in>set ?js. j < i \<longrightarrow> corsa a (Suc j) \<le> bs" using i3 by auto
    have dn: "i \<in> set ?js \<or> corsa a (Suc i) \<le> bs" using indici_props(3)[OF i] by simp
    from ciclo_j_diagonale[OF m p3 st np lt indici_props(1) low dn, of Map.empty b]
    obtain new' c bs' where
      r: "ciclo_j m i 0 (length a) ?js (Map.empty, b, b, bs) = (new', c, c, bs')"
        "bs \<le> bs'" "corsa a (Suc i) \<le> bs'"
        "\<forall>x. new' x = (if x \<in> set ?js then Some (j2len_prec m x + 1) else None)"
      by blast
    have m': "\<forall>j k. new' j = Some k \<longrightarrow> k \<le> corsa a (Suc j) \<and> k \<le> corsa a (Suc i)"
    proof (intro allI impI)
      fix j k assume "new' j = Some k"
      with r(4) have jm: "j \<in> set ?js" and k: "k = j2len_prec m j + 1"
        by (auto split: if_splits)
      from j2len_prec_corsa[OF m, of j] np jm k st
      show "k \<le> corsa a (Suc j) \<and> k \<le> corsa a (Suc i)" by simp
    qed
    have i3': "\<forall>j<Suc i. corsa a (Suc j) \<le> bs'"
      using i3 r(2,3) by (auto simp: less_Suc_eq intro: order_trans)
    have "new' i = Some (j2len_prec m i + 1)" using r(4) indici_props(3)[OF i] by simp
    then have p3': "j2len_prec new' (Suc i) = corsa a (Suc i)"
      using p3 st by (simp add: j2len_prec_def)
    show ?thesis unfolding js bb r(1) using m' i3' p3'
      by (simp add: inv_diagonale_def)
  qed
qed

lemma ciclo_i_diagonale:
  "inv_diagonale a i0 st \<Longrightarrow> i0 \<le> length a \<Longrightarrow>
   inv_diagonale a (length a) (ciclo_i a a 0 (length a) [i0..<length a] st)"
proof (induction "length a - i0" arbitrary: i0 st)
  case 0
  then show ?case by simp
next
  case (Suc n)
  then have lt: "i0 < length a" by simp
  obtain m b b' bs where st: "st = (m, b, b', bs)" by (metis prod_cases4)
  let ?st' = "ciclo_j m i0 0 (length a) (b2j_get a (a ! i0)) (Map.empty, b, b', bs)"
  from riga_diagonale[OF _ lt] Suc.prems(1) st
  have i: "inv_diagonale a (Suc i0) ?st'" by simp
  have "n = length a - Suc i0" using Suc.hyps(2) by simp
  from Suc.hyps(1)[OF this i] lt
  have "inv_diagonale a (length a) (ciclo_i a a 0 (length a) [Suc i0..<length a] ?st')" by simp
  then show ?case using lt st by (simp add: upt_conv_Cons)
qed

lemma estendi_indietro_diagonale:
  assumes "\<forall>x. q x"
  shows "estendi_indietro q a a 0 0 (b, b, s) = (0, 0, s + b)"
proof (induction b arbitrary: s)
  case 0
  show ?case by (subst estendi_indietro.simps) simp
next
  case (Suc b)
  show ?case using assms by (subst estendi_indietro.simps) (simp add: Suc.IH)
qed

lemma estendi_avanti_diagonale:
  assumes "\<forall>x. q x"
  shows "s \<le> n \<Longrightarrow> estendi_avanti q a a n n (0, 0, s) = (0, 0, n)"
proof (induction "n - s" arbitrary: s)
  case 0
  then show ?case by (subst estendi_avanti.simps) simp
next
  case (Suc d)
  then have "s < n" "d = n - (s + 1)" "s + 1 \<le> n" by simp_all
  with Suc.hyps(1)[of "s + 1"] assms show ?case
    by (subst estendi_avanti.simps) simp
qed

lemma estendi_junk:
  "estendi_indietro isbjunk a b alo blo t = t" "estendi_avanti isbjunk a b ahi bhi t = t"
proof -
  obtain i j k where t: "t = (i, j, k)" by (metis prod_cases3)
  show "estendi_indietro isbjunk a b alo blo t = t" unfolding t
    by (subst estendi_indietro.simps) (simp add: isbjunk_def)
  show "estendi_avanti isbjunk a b ahi bhi t = t" unfolding t
    by (subst estendi_avanti.simps) (simp add: isbjunk_def)
qed

lemma find_longest_match_stessa:
  "find_longest_match a a 0 (length a) 0 (length a) = (0, 0, length a)"
proof -
  let ?n = "length a"
  obtain m b b' bs where
    c: "ciclo_i a a 0 ?n [0..<?n] (Map.empty, 0, 0, 0) = (m, b, b', bs)"
    by (metis prod_cases4)
  have "inv_diagonale a 0 (Map.empty, 0, 0, 0)"
    by (simp add: inv_diagonale_def j2len_prec_def)
  from ciclo_i_diagonale[OF this] c have bb: "b' = b" by (simp add: inv_diagonale_def)
  have "inv_j 0 0 ?n 0 (Map.empty, 0, 0, 0)" by (simp add: inv_j_def)
  from ciclo_i_limiti[OF this, of ?n a a] c have le: "b + bs \<le> ?n" by (simp add: inv_j_def)
  have q: "\<forall>x::'a. \<not> isbjunk x" by (simp add: isbjunk_def)
  show ?thesis
    unfolding find_longest_match_def c bb
    using le
    by (simp add: estendi_indietro_diagonale[OF q] estendi_avanti_diagonale[OF q] estendi_junk)
qed

lemma get_matching_blocks_stessa:
  "a \<noteq> [] \<Longrightarrow> get_matching_blocks a a = [(0, 0, length a), (length a, length a, 0)]"
  by (simp add: get_matching_blocks_def find_longest_match_stessa Let_def)

lemma ratio_stessa: "ratio a a = 1"
proof (cases "a = []")
  case True
  then show ?thesis
    by (simp add: ratio_def calculate_ratio_def)
next
  case False
  then show ?thesis
    by (simp add: ratio_def calculate_ratio_def get_matching_blocks_stessa)
qed

text \<open>
  Claim C3. The similarity of a string that is not empty with itself is exactly 1, and
  the similarity of the empty string with any string, on either side, is 0.
\<close>

theorem calcola_similarita_estremi:
  "(x \<noteq> [] \<longrightarrow> calcola_similarita U x x = 1) \<and>
   calcola_similarita U [] y = 0 \<and> calcola_similarita U y [] = 0"
  by (simp add: calcola_similarita_def ratio_stessa)

theorem calcola_similarita_estremi_witness:
  "u ''The slope.'' \<noteq> [] \<and>
   calcola_similarita tabelle_ascii (u ''The slope.'') (u ''The slope.'') = 1 \<and>
   calcola_similarita tabelle_ascii [] (u ''The slope.'') = 0 \<and>
   calcola_similarita tabelle_ascii (u ''The slope.'') [] = 0"
proof -
  have "u ''The slope.'' \<noteq> []" by (simp add: u_def)
  with calcola_similarita_estremi[of "u ''The slope.''" tabelle_ascii "u ''The slope.''"]
  show ?thesis by simp
qed


section \<open>Properties of the merge\<close>

lemmas valuta_tabelle = tabelle_ascii_def minuscola_ascii_def u_def isspace_def str_strip_def

text \<open>
  Claim C5. A native text that is not empty and has at least 10 characters when
  trimmed, merged with an empty OCR text, is returned as it is; so is an OCR text of
  that kind merged with an empty native text; and a native text that is empty or
  shorter than 10 characters when trimmed, merged with an empty OCR text, gives the
  empty string.
\<close>

theorem unisci_testo_pagina_vuoti:
  "(nativo \<noteq> [] \<and> 10 \<le> length (str_strip nativo) \<longrightarrow>
      unisci_testo_pagina U nativo [] = nativo) \<and>
   (ocr \<noteq> [] \<and> 10 \<le> length (str_strip ocr) \<longrightarrow> unisci_testo_pagina U [] ocr = ocr) \<and>
   (nativo = [] \<or> length (str_strip nativo) < 10 \<longrightarrow> unisci_testo_pagina U nativo [] = [])"
  by (simp add: unisci_testo_pagina_def)

theorem unisci_testo_pagina_vuoti_witness:
  "u ''The slope.'' \<noteq> [] \<and> 10 \<le> length (str_strip (u ''The slope.'')) \<and>
   unisci_testo_pagina tabelle_ascii (u ''The slope.'') [] = u ''The slope.'' \<and>
   unisci_testo_pagina tabelle_ascii [] (u ''The slope.'') = u ''The slope.'' \<and>
   length (str_strip (u ''  slope  '')) < 10 \<and>
   unisci_testo_pagina tabelle_ascii (u ''  slope  '') [] = []"
proof -
  have a: "u ''The slope.'' \<noteq> [] \<and> 10 \<le> length (str_strip (u ''The slope.''))"
    by (simp add: valuta_tabelle)
  have b: "length (str_strip (u ''  slope  '')) < 10"
    by (simp add: valuta_tabelle)
  from unisci_testo_pagina_vuoti[of "u ''The slope.''" tabelle_ascii "u ''The slope.''"]
    unisci_testo_pagina_vuoti[of "u ''  slope  ''" tabelle_ascii "[]"] a b
  show ?thesis by simp
qed

text \<open>
  Claim C1. When both texts are not empty and have at least 10 characters when trimmed,
  and their similarity is above 0.80, the merge returns the native text unchanged.
\<close>

theorem unisci_testo_pagina_simile:
  assumes "testo_nativo \<noteq> []" and "10 \<le> length (str_strip testo_nativo)"
    and "testo_ocr \<noteq> []" and "10 \<le> length (str_strip testo_ocr)"
    and "calcola_similarita U testo_nativo testo_ocr > 8 / 10"
  shows "unisci_testo_pagina U testo_nativo testo_ocr = testo_nativo"
  using assms by (simp add: unisci_testo_pagina_def)

lemma sim_esempio:
  "calcola_similarita tabelle_ascii (u ''The derivative of f is continuous.'')
     (u ''The derivative of f is continuous'') = 66 / 67"
  by code_simp

theorem unisci_testo_pagina_simile_witness:
  "u ''The derivative of f is continuous.'' \<noteq> [] \<and>
   10 \<le> length (str_strip (u ''The derivative of f is continuous.'')) \<and>
   u ''The derivative of f is continuous'' \<noteq> [] \<and>
   10 \<le> length (str_strip (u ''The derivative of f is continuous'')) \<and>
   calcola_similarita tabelle_ascii (u ''The derivative of f is continuous.'')
     (u ''The derivative of f is continuous'') > 8 / 10 \<and>
   unisci_testo_pagina tabelle_ascii (u ''The derivative of f is continuous.'')
     (u ''The derivative of f is continuous'') = u ''The derivative of f is continuous.''"
proof -
  have a: "u ''The derivative of f is continuous.'' \<noteq> []"
    "10 \<le> length (str_strip (u ''The derivative of f is continuous.''))"
    "u ''The derivative of f is continuous'' \<noteq> []"
    "10 \<le> length (str_strip (u ''The derivative of f is continuous''))"
    by (simp_all add: valuta_tabelle)
  have s: "calcola_similarita tabelle_ascii (u ''The derivative of f is continuous.'')
     (u ''The derivative of f is continuous'') > 8 / 10"
    by (simp add: sim_esempio)
  from unisci_testo_pagina_simile[OF a s] a s show ?thesis by simp
qed

lemma riempi_eq: "riempi n testi = testi @ replicate (n - length testi) []"
proof (induction n testi rule: riempi.induct)
  case (1 n testi)
  show ?case
  proof (cases "length testi < n")
    case True
    then have "n - length testi = Suc (n - Suc (length testi))" by simp
    with 1[OF True] True show ?thesis
      by (subst riempi.simps) (simp add: replicate_app_Cons_same)
  next
    case False
    then show ?thesis by (subst riempi.simps) simp
  qed
qed

lemma ciclo_pagine_eq:
  "ciclo_pagine U ns os is acc =
     acc @ filter (\<lambda>t. t \<noteq> []) (map (\<lambda>i. unisci_testo_pagina U (ns ! i) (os ! i)) is)"
  by (induction "is" arbitrary: acc) (simp_all add: Let_def)

lemma map_nth_map2:
  "length xs = n \<Longrightarrow> length ys = n \<Longrightarrow> map (\<lambda>i. f (xs ! i) (ys ! i)) [0..<n] = map2 f xs ys"
  by (rule nth_equalityI) simp_all

text \<open>
  Claim C8. The shorter list of pages is padded with empty strings, so that both lists
  have the length of the longer; the pages are merged index by index, in increasing
  order; the empty results are dropped and the others joined by one space, in page
  order.
\<close>

theorem estrai_testo_completo_pdf_pagine:
  "length (riempi (max (length nativi) (length ocr)) nativi) = max (length nativi) (length ocr) \<and>
   length (riempi (max (length nativi) (length ocr)) ocr) = max (length nativi) (length ocr) \<and>
   riempi (max (length nativi) (length ocr)) nativi =
     nativi @ replicate (length ocr - length nativi) [] \<and>
   riempi (max (length nativi) (length ocr)) ocr =
     ocr @ replicate (length nativi - length ocr) [] \<and>
   estrai_testo_completo_pdf U nativi ocr =
     str_join [32]
       (filter (\<lambda>t. t \<noteq> [])
          (map2 (unisci_testo_pagina U)
             (nativi @ replicate (length ocr - length nativi) [])
             (ocr @ replicate (length nativi - length ocr) [])))"
proof -
  let ?n = "max (length nativi) (length ocr)"
  have a: "riempi ?n nativi = nativi @ replicate (length ocr - length nativi) []"
    by (simp add: riempi_eq max_def)
  have b: "riempi ?n ocr = ocr @ replicate (length nativi - length ocr) []"
    by (simp add: riempi_eq max_def)
  have la: "length (riempi ?n nativi) = ?n" by (simp add: riempi_eq)
  have lb: "length (riempi ?n ocr) = ?n" by (simp add: riempi_eq)
  have "estrai_testo_completo_pdf U nativi ocr =
     str_join [32] (filter (\<lambda>t. t \<noteq> [])
       (map (\<lambda>i. unisci_testo_pagina U (riempi ?n nativi ! i) (riempi ?n ocr ! i)) [0..<?n]))"
    by (simp add: estrai_testo_completo_pdf_def Let_def ciclo_pagine_eq)
  also have "\<dots> = str_join [32] (filter (\<lambda>t. t \<noteq> [])
       (map2 (unisci_testo_pagina U) (riempi ?n nativi) (riempi ?n ocr)))"
    by (simp only: map_nth_map2[OF la lb])
  finally show ?thesis using a b la lb by simp
qed

theorem estrai_testo_completo_pdf_pagine_witness:
  "estrai_testo_completo_pdf tabelle_ascii [u ''The slope.'', [], u ''A long page.''] [[], []] =
     u ''The slope. A long page.''"
proof -
  have m: "unisci_testo_pagina tabelle_ascii (u ''The slope.'') [] = u ''The slope.''"
    "unisci_testo_pagina tabelle_ascii [] [] = []"
    "unisci_testo_pagina tabelle_ascii (u ''A long page.'') [] = u ''A long page.''"
    by (simp_all add: unisci_testo_pagina_def valuta_tabelle)
  from estrai_testo_completo_pdf_pagine[of "[u ''The slope.'', [], u ''A long page.'']" "[[], []]" tabelle_ascii]
  have "estrai_testo_completo_pdf tabelle_ascii [u ''The slope.'', [], u ''A long page.''] [[], []] =
     str_join [32] (filter (\<lambda>t. t \<noteq> [])
       [unisci_testo_pagina tabelle_ascii (u ''The slope.'') [],
        unisci_testo_pagina tabelle_ascii [] [],
        unisci_testo_pagina tabelle_ascii (u ''A long page.'') []])"
    by (simp add: numeral_3_eq_3)
  then show ?thesis by (simp add: m) (simp add: u_def)
qed

lemma ciclo_base_iff:
  "ciclo_base U f frasi_base \<longleftrightarrow>
     (\<exists>frase_base\<in>set frasi_base.
        calcola_similarita U (str_lower U f) (str_strip frase_base) > 85 / 100)"
  by (induction frasi_base) auto

lemma ciclo_frasi_eq:
  "ciclo_frasi U frasi_base frasi_ocr frasi_nuove =
     frasi_nuove @
     filter (\<lambda>f. 15 \<le> length f \<and> is_frase_valida U f \<and> \<not> ciclo_base U f frasi_base)
       (map str_strip frasi_ocr)"
proof (induction frasi_ocr arbitrary: frasi_nuove)
  case Nil
  show ?case by simp
next
  case (Cons frase frasi_ocr)
  show ?case
    by (cases "str_strip frase = []") (simp_all add: Let_def Cons.IH not_less)
qed

lemma trova_frasi_uniche_eq:
  assumes "testo_nativo \<noteq> []" and "testo_ocr \<noteq> []"
  shows "trova_frasi_uniche U testo_nativo testo_ocr =
     filter (supplemento U testo_nativo) (map str_strip (re_split [] testo_ocr))"
proof -
  have "\<And>f. (15 \<le> length f \<and> is_frase_valida U f \<and>
           \<not> ciclo_base U f (remdups (re_split [] (str_lower U testo_nativo)))) =
        supplemento U testo_nativo f"
    by (auto simp: supplemento_def ciclo_base_iff not_less)
  then show ?thesis using assms
    by (simp add: trova_frasi_uniche_def Let_def ciclo_frasi_eq)
qed

text \<open>
  Claim C2. When both texts are not empty and have at least 10 characters when trimmed,
  and their similarity is at most 0.80, the merge is the native text, followed by
  \<^verbatim>\<open>". "\<close> and the supplements joined by \<^verbatim>\<open>". "\<close> in the order of the OCR text,
  when there is a supplement, and the native text alone when there is none. The
  supplements are the sentences of the OCR text, trimmed, that satisfy
  \<open>supplemento\<close>.
\<close>

theorem unisci_testo_pagina_supplementi:
  assumes "testo_nativo \<noteq> []" and "10 \<le> length (str_strip testo_nativo)"
    and "testo_ocr \<noteq> []" and "10 \<le> length (str_strip testo_ocr)"
    and "calcola_similarita U testo_nativo testo_ocr \<le> 8 / 10"
  shows "unisci_testo_pagina U testo_nativo testo_ocr =
     (if filter (supplemento U testo_nativo) (map str_strip (re_split [] testo_ocr)) \<noteq> []
      then testo_nativo @ [46, 32] @
             str_join [46, 32]
               (filter (supplemento U testo_nativo) (map str_strip (re_split [] testo_ocr)))
      else testo_nativo)"
  using assms
  by (simp add: unisci_testo_pagina_def Let_def trova_frasi_uniche_eq not_less
      del: filter_empty_conv)

lemmas valuta_frase = is_frase_valida_def str_split_def carattere_valido_def simboli_validi_def
  strano_def parola_re_def terminatore_def

theorem unisci_testo_pagina_supplementi_witness:
  "u ''The slope.'' \<noteq> [] \<and> 10 \<le> length (str_strip (u ''The slope.'')) \<and>
   u ''A new limit of g. The slope'' \<noteq> [] \<and>
   10 \<le> length (str_strip (u ''A new limit of g. The slope'')) \<and>
   calcola_similarita tabelle_ascii (u ''The slope.'') (u ''A new limit of g. The slope'') \<le> 8 / 10 \<and>
   unisci_testo_pagina tabelle_ascii (u ''The slope.'') (u ''A new limit of g. The slope'') =
     u ''The slope.. A new limit of g''"
proof -
  have a: "u ''The slope.'' \<noteq> []" "10 \<le> length (str_strip (u ''The slope.''))"
    "u ''A new limit of g. The slope'' \<noteq> []"
    "10 \<le> length (str_strip (u ''A new limit of g. The slope''))"
    by (simp_all add: valuta_tabelle)
  have "calcola_similarita tabelle_ascii (u ''The slope.'') (u ''A new limit of g. The slope'') = 18 / 37"
    by code_simp
  then have s: "calcola_similarita tabelle_ascii (u ''The slope.'') (u ''A new limit of g. The slope'') \<le> 8 / 10"
    by simp
  have f: "map str_strip (re_split [] (u ''A new limit of g. The slope'')) =
      [u ''A new limit of g'', u ''The slope'']"
    by (simp add: valuta_tabelle terminatore_def)
  have b: "re_split [] (str_lower tabelle_ascii (u ''The slope.'')) = [u ''the slope'', []]"
    by (simp add: valuta_tabelle terminatore_def)
  have v: "is_frase_valida tabelle_ascii (u ''A new limit of g'')"
    by (simp add: valuta_frase valuta_tabelle)
  have "calcola_similarita tabelle_ascii (str_lower tabelle_ascii (u ''A new limit of g''))
          (str_strip (u ''the slope'')) = 4 / 25"
    by code_simp
  then have q1: "supplemento tabelle_ascii (u ''The slope.'') (u ''A new limit of g'')"
    unfolding supplemento_def b using v
    by (simp add: calcola_similarita_def) (simp add: valuta_tabelle)
  have q2: "\<not> supplemento tabelle_ascii (u ''The slope.'') (u ''The slope'')"
    by (simp add: supplemento_def u_def)
  from unisci_testo_pagina_supplementi[OF a s] a s show ?thesis
    by (simp add: f q1 q2) (simp add: u_def)
qed

section \<open>The cleaning of the scenario\<close>

lemma pulisci_esempio:
  "pulisci_testo_ocr tabelle_ascii
     (u ''Pag. 3'' @ [10] @ u ''- - -'' @ [10] @ u ''This is real content about '' @ [945] @
      u '' and '' @ [946] @ u '' coefficients.'' @ [10]) =
   u ''Pag. 3 This is real content about '' @ [945] @ u '' and '' @ [946] @ u '' coefficients.''"
  by code_simp

text \<open>
  Claim C4 says that the cleaned text of the scenario holds neither the line
  \<^verbatim>\<open>Pag. 3\<close> nor the line of dashes. The line \<^verbatim>\<open>Pag. 3\<close> has letters and a full
  stop, so it is not made of digits, whitespace, dashes and slashes only, and line 37
  keeps it: the cleaned text holds it.
\<close>

theorem pulisci_testo_ocr_pagina_counterexample:
  "contiene
     (pulisci_testo_ocr tabelle_ascii
        (u ''Pag. 3'' @ [10] @ u ''- - -'' @ [10] @ u ''This is real content about '' @ [945] @
         u '' and '' @ [946] @ u '' coefficients.'' @ [10]))
     (u ''Pag. 3'')"
  unfolding pulisci_esempio by code_simp

text \<open>
  Claim C4, amended. The cleaned text of the scenario is the line \<^verbatim>\<open>Pag. 3\<close>, a
  space, and the sentence: it holds the sentence and it does not hold the line of
  dashes, which is made of dashes and spaces only, while \<^verbatim>\<open>Pag. 3\<close> is not a line of
  that kind. U+03B1 and U+03B2 are the two Greek letters of the scenario.
\<close>

theorem pulisci_testo_ocr_esempio:
  "pulisci_testo_ocr tabelle_ascii
     (u ''Pag. 3'' @ [10] @ u ''- - -'' @ [10] @ u ''This is real content about '' @ [945] @
      u '' and '' @ [946] @ u '' coefficients.'' @ [10]) =
     u ''Pag. 3 This is real content about '' @ [945] @ u '' and '' @ [946] @
     u '' coefficients.'' \<and>
   contiene
     (pulisci_testo_ocr tabelle_ascii
        (u ''Pag. 3'' @ [10] @ u ''- - -'' @ [10] @ u ''This is real content about '' @ [945] @
         u '' and '' @ [946] @ u '' coefficients.'' @ [10]))
     (u ''This is real content about '' @ [945] @ u '' and '' @ [946] @ u '' coefficients.'') \<and>
   \<not> contiene
     (pulisci_testo_ocr tabelle_ascii
        (u ''Pag. 3'' @ [10] @ u ''- - -'' @ [10] @ u ''This is real content about '' @ [945] @
         u '' and '' @ [946] @ u '' coefficients.'' @ [10]))
     (u ''- - -'') \<and>
   \<not> solo_numeri tabelle_ascii (u ''Pag. 3'') \<and>
   solo_numeri tabelle_ascii (u ''- - -'')"
  unfolding pulisci_esempio by code_simp

theorem pulisci_testo_ocr_esempio_witness:
  "\<not> contiene
     (pulisci_testo_ocr tabelle_ascii
        (u ''Pag. 3'' @ [10] @ u ''- - -'' @ [10] @ u ''This is real content about '' @ [945] @
         u '' and '' @ [946] @ u '' coefficients.'' @ [10]))
     (u ''- - -'')"
  by (rule pulisci_testo_ocr_esempio[THEN conjunct2, THEN conjunct2, THEN conjunct1])

section \<open>A folder that does not exist\<close>

text \<open>
  Whatever the rest of \<^verbatim>\<open>elabora_cartella\<close> does, it is not reached when the folder
  does not exist: no file is written.
\<close>

lemma programma_nessun_file:
  assumes "librerie amb" and "2 \<le> length argv" and "\<not> esiste amb (argv ! 1)"
  shows "scritti (programma amb argv) = []"
  using assms by (simp add: programma_def elabora_cartella_def Let_def)

text \<open>
  Claim C9. The claim asks for a status that is not zero, and for no output file, when
  the input folder does not exist. Run as \<^verbatim>\<open>python main.py slide\<close> where no folder
  \<^verbatim>\<open>slide\<close> exists, the program prints its error message and writes no file, but
  \<^verbatim>\<open>elabora_cartella\<close> only returns and the script reaches its end: the status is 0.
  The two other fatal paths, the missing argument and the missing libraries, print
  and call \<^verbatim>\<open>sys.exit(1)\<close>: their status is 1.
\<close>

theorem programma_cartella_mancante_stato:
  "stato_uscita (programma ambiente_vuoto [u ''main.py'', u ''slide'']) = 0 \<and>
   scritti (programma ambiente_vuoto [u ''main.py'', u ''slide'']) = [] \<and>
   righe (programma ambiente_vuoto [u ''main.py'', u ''slide'']) =
     [u ''Errore: la cartella '' @ [39] @ u ''slide'' @ [39] @ u '' non esiste.''] \<and>
   stato_uscita (programma ambiente_vuoto [u ''main.py'']) = 1 \<and>
   stato_uscita (programma (ambiente_vuoto\<lparr>librerie := False\<rparr>) [u ''main.py'', u ''slide'']) = 1"
  by (simp add: programma_def elabora_cartella_def ambiente_vuoto_def)

end
